theory Spec2Isabelle
  imports Complex_Main "HOL-Library.Word"
begin

unbundle bit_operations_syntax

section \<open>Common types\<close>

text \<open>
  \<open>uint256\<close> is the 256-bit digest type (ledger hashes, transaction keys),
  \<open>LedgerIndex\<close> is \<open>std::uint32_t\<close>. A \<open>Slice\<close> is a run of bytes.
  \<open>Json::Value\<close> is opaque to every function modelled here and is a string.
\<close>

type_synonym uint8_t = "8 word"
type_synonym uint256 = "256 word"
type_synonym LedgerIndex = "32 word"
type_synonym LedgerHash = uint256
type_synonym Slice = "uint8_t list"
type_synonym JsonValue = string

text \<open>
  The ways a call can end without returning: \<open>LogicError\<close> (contract.h, always
  fatal), a failed \<open>assert\<close> (fatal only in a build without \<open>NDEBUG\<close>), and
  \<open>std::bad_optional_access\<close> thrown by \<open>optional::value()\<close>.
\<close>

datatype error = LogicError string | AssertionFailed string | BadOptionalAccess | NullDereference

text \<open>
  \<open>assert\<close> is a macro of the build: with \<open>NDEBUG\<close> defined it expands to
  nothing, without it a false condition aborts the process. Every record of
  collaborators below extends \<open>Build\<close>, so each function reads the flag from its
  first argument.
\<close>

record Build =
  NDEBUG :: bool

definition assert_fails :: "'a Build_scheme \<Rightarrow> bool \<Rightarrow> bool" where
  "assert_fails b cond = (\<not> NDEBUG b \<and> \<not> cond)"

section \<open>Message.cpp: the wire envelope\<close>

text \<open>
  \<open>set_header\<close> (the lambda of Message.cpp, lines 46-56) writes six bytes through
  \<open>ptr\<close>; the model returns them in order. \<open>messageBytes\<close> is \<open>unsigned\<close>
  (or \<open>size_t\<close> holding a protobuf size, which is below \<open>2^31\<close>), \<open>type\<close> is
  \<open>int\<close>. The flag byte is computed in \<open>int\<close> and narrowed to \<open>uint8_t\<close>.
\<close>

definition set_header :: "32 word \<Rightarrow> 32 word \<Rightarrow> bool \<Rightarrow> uint8_t \<Rightarrow> uint8_t list" where
  "set_header messageBytes mtype compressed compr_algorithm =
     (let compression = (ucast (((if compressed then 0xF0 else 0) :: 32 word)
                          AND (0x80 OR push_bit 4 (ucast compr_algorithm))) :: uint8_t)
      in [ucast ((drop_bit 24 messageBytes OR ucast compression) AND 0xFF),
          ucast (drop_bit 16 messageBytes AND 0xFF),
          ucast (drop_bit 8 messageBytes AND 0xFF),
          ucast (messageBytes AND 0xFF),
          ucast (signed_drop_bit 8 mtype AND 0xFF),
          ucast (mtype AND 0xFF)])"

text \<open>
  The message-type codes of \<open>protocol::MessageType\<close> (ripple.proto) and the default
  \<open>compression::Algorithm::LZ4\<close> (Compression.h) are not part of the sources at hand;
  they are parameters. So is \<open>compression::compress\<close>, which maps the payload to
  the compressed bytes; \<open>std::get<1>(res)\<close> is their number.
\<close>

record Protocol = Build +
  mtMANIFESTS :: "32 word"
  mtENDPOINTS :: "32 word"
  mtTRANSACTION :: "32 word"
  mtGET_LEDGER :: "32 word"
  mtLEDGER_DATA :: "32 word"
  mtGET_OBJECTS :: "32 word"
  mtVALIDATORLIST :: "32 word"
  LZ4 :: uint8_t
  compress :: "Slice \<Rightarrow> Slice"

record Message =
  mBuffer :: "uint8_t list"
  mBufferCompressed :: "uint8_t list"

definition compressible :: "Protocol \<Rightarrow> 32 word \<Rightarrow> 32 word \<Rightarrow> bool \<Rightarrow> bool" where
  "compressible p messageBytes mtype compression_enabled =
     (compression_enabled \<and>
      (mtype = mtMANIFESTS p \<or> mtype = mtENDPOINTS p \<or>
       mtype = mtTRANSACTION p \<or> mtype = mtGET_LEDGER p \<or> mtype = mtLEDGER_DATA p \<or>
       mtype = mtGET_OBJECTS p \<or> mtype = mtVALIDATORLIST p) \<and>
      70 < messageBytes)"

text \<open>
  The constructor. \<open>payload\<close> is what \<open>SerializeToArray\<close> writes, its length is
  \<open>messageBytes\<close>. \<open>ratio\<close> is a \<open>double\<close> in the source; both sizes are below
  \<open>2^53\<close>, so the two conversions are exact and the sign of the rounded result is
  the sign of the real number computed here.
\<close>

definition Message_ctor ::
  "Protocol \<Rightarrow> Slice \<Rightarrow> 32 word \<Rightarrow> bool \<Rightarrow> error + Message" where
  "Message_ctor p payload mtype compression_enabled =
     (let messageBytes = (word_of_nat (length payload) :: 32 word) in
      if assert_fails p (messageBytes \<noteq> 0) then Inl (AssertionFailed ''messageBytes != 0'')
      else
        let buf = set_header messageBytes mtype False (LZ4 p) @ payload in
        if compressible p messageBytes mtype compression_enabled then
          let res = compress p payload;
              compressedSize = (word_of_nat (length res) :: 32 word);
              ratio = 1 - real (unat compressedSize) / real (unat messageBytes)
          in if ratio > 0
             then Inr \<lparr>mBuffer = buf,
                       mBufferCompressed =
                         set_header compressedSize mtype True (LZ4 p) @ take (unat compressedSize) res\<rparr>
             else Inr \<lparr>mBuffer = buf, mBufferCompressed = []\<rparr>
        else Inr \<lparr>mBuffer = buf, mBufferCompressed = []\<rparr>)"

section \<open>LedgerHistory.cpp: the data\<close>

text \<open>
  Modelled from the spec: the ledger (Ledger.h, ReadView.h and SHAMap.h are not
  part of the sources at hand), with what the functions of LedgerHistory.cpp
  read of it: \<open>info()\<close>, \<open>isImmutable()\<close>, \<open>stateMap().getHash()\<close>, the leaves of
  \<open>txMap()\<close> and \<open>txRead(key).second\<close>. The spec: "sequence index, hash, parent
  hash, close time, a state trie, and a transaction set", "each key unique
  within the ledger". The leaves of a SHAMap are objects in memory and the
  source collects their addresses, so \<open>txMap\<close> is the list of addresses in
  iteration order and the objects live in the \<open>heap\<close> of \<open>Env\<close>.
\<close>

record LedgerInfo =
  seq :: LedgerIndex
  hash :: uint256
  parentHash :: uint256
  closeTime :: nat

record SHAMapItem =
  key :: uint256
  slice_data :: Slice

text \<open>
  Modelled from the spec: the metadata object \<open>txRead\<close> returns (STObject.h is
  not part of the sources at hand), with the three fields the classification
  reads. The spec: "parse each side's metadata into (result code,
  applied-index, affected-node-list)".
\<close>

record STObject =
  sfTransactionResult :: uint8_t
  sfTransactionIndex :: "32 word"
  sfAffectedNodes :: "string list"

text \<open>
  Modelled from the spec: \<open>TxMeta\<close> (TxMeta.h is not part of the sources at hand):
  the transaction, the ledger sequence and the parsed "(result code,
  applied-index, affected-node-list)".
\<close>

record TxMeta =
  mTransactionID :: uint256
  mLedger :: "32 word"
  mIndex :: "32 word"
  mResult :: int
  mNodes :: "string list"

text \<open>
  Modelled from the spec: the constructor \<open>TxMeta(txID, ledger, obj)\<close>, which
  does the parsing: each field of \<open>TxMeta\<close> is read from the object.
\<close>

definition TxMeta_ctor :: "uint256 \<Rightarrow> 32 word \<Rightarrow> STObject \<Rightarrow> TxMeta" where
  "TxMeta_ctor txID ledger obj =
     \<lparr>mTransactionID = txID, mLedger = ledger,
      mIndex = sfTransactionIndex obj,
      mResult = uint (sfTransactionResult obj),
      mNodes = sfAffectedNodes obj\<rparr>"

record Ledger =
  info :: LedgerInfo
  isImmutable :: bool
  stateMapHash :: uint256
  txMap :: "nat list"
  txRead :: "uint256 \<Rightarrow> STObject option"

text \<open>
  What the code reads and never writes: the build flag, the two loaders of the
  durable store and the memory holding the SHAMap leaves.
\<close>

record Env = Build +
  loadByHash :: "LedgerHash \<Rightarrow> Ledger option"
  loadByIndex :: "LedgerIndex \<Rightarrow> Ledger option"
  heap :: "nat \<Rightarrow> SHAMapItem"

text \<open>
  The journal is the list of lines written, each with its severity and the
  operands of \<open><<\<close> in order.
\<close>

datatype Severity = kDebug | kError

datatype LogPart =
    Str string
  | U256 uint256
  | Num nat
  | IntV int
  | ObjJson STObject
  | MetaJson TxMeta
  | NodesJson "string list"
  | LedgerJson LedgerInfo
  | Json JsonValue
  | Ptr bool

type_synonym LogLine = "Severity \<times> LogPart list"

text \<open>
  Modelled from the spec: \<open>cv_entry\<close> (LedgerHistory.h is not part of the sources
  at hand). The spec: "optional built-hash, optional built-consensus-set-hash,
  opaque consensus metadata, optional validated-hash, optional
  validated-consensus-set-hash".
\<close>

record cv_entry =
  built :: "LedgerHash option"
  validated :: "LedgerHash option"
  builtConsensusHash :: "uint256 option"
  validatedConsensusHash :: "uint256 option"
  consensus :: "JsonValue option"

text \<open>\<open>std::make_shared<cv_entry>()\<close>: an entry with nothing known.\<close>

definition make_cv_entry :: cv_entry where
  "make_cv_entry = \<lparr>built = None, validated = None, builtConsensusHash = None,
                     validatedConsensusHash = None, consensus = None\<rparr>"

record LedgerHistory =
  ledgerCache :: "LedgerHash \<rightharpoonup> Ledger"
  mLedgersByIndex :: "LedgerIndex \<rightharpoonup> LedgerHash"
  consensusValidated :: "LedgerIndex \<rightharpoonup> cv_entry"
  mismatch_counter :: nat
  journal :: "LogLine list"

text \<open>
  \<open>TaggedCache\<close> (TaggedCache.h) is not part of the sources at hand; the three
  operations the code calls are modelled on a map. Expiry happens in \<open>sweep\<close>,
  which no function here calls.
\<close>

text \<open>
  Modelled from the spec: \<open>TaggedCache::fetch\<close>. The spec: "O(1) cache lookup;
  does not consult the external loader".
\<close>

definition fetch :: "('k \<rightharpoonup> 'v) \<Rightarrow> 'k \<Rightarrow> 'v option" where
  "fetch c k = c k"

text \<open>
  Modelled from the spec: \<open>TaggedCache::insert_or_assign\<close>. The spec:
  "inserts-or-replaces by hash in the bounded cache", "Returns whether an
  entry for that hash already existed".
\<close>

definition insert_or_assign :: "('k \<rightharpoonup> 'v) \<Rightarrow> 'k \<Rightarrow> 'v \<Rightarrow> bool \<times> ('k \<rightharpoonup> 'v)" where
  "insert_or_assign c k v = (c k \<noteq> None, c(k \<mapsto> v))"

text \<open>
  Modelled from the spec: \<open>TaggedCache::retrieve_or_insert\<close>. The spec: "insert
  if absent, else return the existing instance". The source rebinds its
  second argument to the cached instance; the model returns that instance
  with the cache.
\<close>

definition retrieve_or_insert :: "('k \<rightharpoonup> 'v) \<Rightarrow> 'k \<Rightarrow> 'v \<Rightarrow> 'v \<times> ('k \<rightharpoonup> 'v)" where
  "retrieve_or_insert c k v = (case c k of Some w \<Rightarrow> (w, c) | None \<Rightarrow> (v, c(k \<mapsto> v)))"

text \<open>\<open>JLOG(j.severity()) << ...\<close>: one more line in the journal.\<close>

definition JLOG :: "LogLine \<Rightarrow> LedgerHistory \<Rightarrow> LedgerHistory" where
  "JLOG l s = s\<lparr>journal := journal s @ [l]\<rparr>"

section \<open>LedgerHistory.cpp: the cache and the index\<close>

definition LedgerHistory_insert ::
  "Env \<Rightarrow> Ledger \<Rightarrow> bool \<Rightarrow> LedgerHistory \<Rightarrow> (error + bool) \<times> LedgerHistory" where
  "LedgerHistory_insert env ledger isValidated s =
     (if \<not> isImmutable ledger then (Inl (LogicError ''mutable Ledger in insert''), s)
      else if assert_fails env (stateMapHash ledger \<noteq> 0)
      then (Inl (AssertionFailed ''ledger->stateMap().getHash().isNonZero()''), s)
      else
        let (alreadyHad, c) = insert_or_assign (ledgerCache s) (hash (info ledger)) ledger;
            s1 = s\<lparr>ledgerCache := c\<rparr>;
            s2 = (if isValidated
                  then s1\<lparr>mLedgersByIndex :=
                            (mLedgersByIndex s1)(seq (info ledger) \<mapsto> hash (info ledger))\<rparr>
                  else s1)
        in (Inr alreadyHad, s2))"

definition getLedgerHash :: "LedgerIndex \<Rightarrow> LedgerHistory \<Rightarrow> LedgerHash" where
  "getLedgerHash index s = (case mLedgersByIndex s index of Some h \<Rightarrow> h | None \<Rightarrow> 0)"

definition getLedgerByHash ::
  "Env \<Rightarrow> LedgerHash \<Rightarrow> LedgerHistory \<Rightarrow> (error + Ledger option) \<times> LedgerHistory" where
  "getLedgerByHash env h s =
     (case fetch (ledgerCache s) h of
        Some ret \<Rightarrow>
          if assert_fails env (isImmutable ret)
          then (Inl (AssertionFailed ''ret->isImmutable()''), s)
          else if assert_fails env (hash (info ret) = h)
          then (Inl (AssertionFailed ''ret->info().hash == hash''), s)
          else (Inr (Some ret), s)
      | None \<Rightarrow>
          (case loadByHash env h of
             None \<Rightarrow> (Inr None, s)
           | Some ret \<Rightarrow>
               if assert_fails env (isImmutable ret)
               then (Inl (AssertionFailed ''ret->isImmutable()''), s)
               else if assert_fails env (hash (info ret) = h)
               then (Inl (AssertionFailed ''ret->info().hash == hash''), s)
               else
                 let (ret', c) = retrieve_or_insert (ledgerCache s) (hash (info ret)) ret;
                     s1 = s\<lparr>ledgerCache := c\<rparr>
                 in if assert_fails env (hash (info ret') = h)
                    then (Inl (AssertionFailed ''ret->info().hash == hash''), s1)
                    else (Inr (Some ret'), s1)))"

definition getLedgerBySeq ::
  "Env \<Rightarrow> LedgerIndex \<Rightarrow> LedgerHistory \<Rightarrow> (error + Ledger option) \<times> LedgerHistory" where
  "getLedgerBySeq env index s =
     (case mLedgersByIndex s index of
        Some h \<Rightarrow> getLedgerByHash env h s
      | None \<Rightarrow>
          (case loadByIndex env index of
             None \<Rightarrow> (Inr None, s)
           | Some ret \<Rightarrow>
               if assert_fails env (seq (info ret) = index)
               then (Inl (AssertionFailed ''ret->info().seq == index''), s)
               else if assert_fails env (isImmutable ret)
               then (Inl (AssertionFailed ''ret->isImmutable()''), s)
               else
                 let (ret', c) = retrieve_or_insert (ledgerCache s) (hash (info ret)) ret;
                     s1 = s\<lparr>ledgerCache := c\<rparr>;
                     s2 = s1\<lparr>mLedgersByIndex :=
                               (mLedgersByIndex s1)(seq (info ret') \<mapsto> hash (info ret'))\<rparr>
                 in (Inr (if seq (info ret') = index then Some ret' else None), s2)))"

definition fixIndex ::
  "LedgerIndex \<Rightarrow> LedgerHash \<Rightarrow> LedgerHistory \<Rightarrow> bool \<times> LedgerHistory" where
  "fixIndex ledgerIndex ledgerHash s =
     (case mLedgersByIndex s ledgerIndex of
        Some h \<Rightarrow>
          if h \<noteq> ledgerHash
          then (False, s\<lparr>mLedgersByIndex := (mLedgersByIndex s)(ledgerIndex \<mapsto> ledgerHash)\<rparr>)
          else (True, s)
      | None \<Rightarrow> (True, s))"

section \<open>LedgerHistory.cpp: the mismatch analyzer\<close>

definition log_one :: "Ledger \<Rightarrow> uint256 \<Rightarrow> string \<Rightarrow> LogLine list \<Rightarrow> LogLine list" where
  "log_one ledger tx msg j =
     (case txRead ledger tx of
        Some metaData \<Rightarrow>
          j @ [(kDebug, [Str ''MISMATCH on TX '', U256 tx, Str '': '', Str msg,
                         Str '' is missing this transaction:\<newline>'', ObjJson metaData])]
      | None \<Rightarrow>
          j @ [(kDebug, [Str ''MISMATCH on TX '', U256 tx, Str '': '', Str msg,
                         Str '' is missing this transaction.''])])"

definition getMeta :: "Ledger \<Rightarrow> uint256 \<Rightarrow> TxMeta option" where
  "getMeta ledger txID =
     (case txRead ledger txID of
        None \<Rightarrow> None
      | Some meta \<Rightarrow> Some (TxMeta_ctor txID (seq (info ledger)) meta))"

text \<open>
  With \<open>NDEBUG\<close> and no metadata on either side the last branch of the source
  calls \<open>getJson\<close> through a null pointer.
\<close>

definition log_metadata_difference ::
  "Env \<Rightarrow> Ledger \<Rightarrow> Ledger \<Rightarrow> uint256 \<Rightarrow> LogLine list \<Rightarrow> (error + unit) \<times> LogLine list" where
  "log_metadata_difference env builtLedger validLedger tx j =
     (let validMetaData = getMeta validLedger tx;
          builtMetaData = getMeta builtLedger tx
      in
      if assert_fails env (validMetaData \<noteq> None \<or> builtMetaData \<noteq> None)
      then (Inl (AssertionFailed ''validMetaData != nullptr || builtMetaData != nullptr''), j)
      else
        (case (validMetaData, builtMetaData) of
           (Some vm, Some bm) \<Rightarrow>
             (let validNodes = mNodes vm;
                  builtNodes = mNodes bm;
                  result_diff = (mResult vm \<noteq> mResult bm);
                  index_diff = (mIndex vm \<noteq> mIndex bm);
                  nodes_diff = (validNodes \<noteq> builtNodes)
              in
              if \<not> result_diff \<and> \<not> index_diff \<and> \<not> nodes_diff
              then (Inr (), j @ [(kError, [Str ''MISMATCH on TX '', U256 tx,
                                          Str '': No apparent mismatches detected!''])])
              else if \<not> nodes_diff then
                (if result_diff \<and> index_diff then
                   (Inr (), j @
                     [(kDebug, [Str ''MISMATCH on TX '', U256 tx,
                                Str '': Different result and index!'']),
                      (kDebug, [Str '' Built:'', Str '' Result: '', IntV (mResult bm),
                                Str '' Index: '', Num (unat (mIndex bm))]),
                      (kDebug, [Str '' Valid:'', Str '' Result: '', IntV (mResult vm),
                                Str '' Index: '', Num (unat (mIndex vm))])])
                 else if result_diff then
                   (Inr (), j @
                     [(kDebug, [Str ''MISMATCH on TX '', U256 tx, Str '': Different result!'']),
                      (kDebug, [Str '' Built:'', Str '' Result: '', IntV (mResult bm)]),
                      (kDebug, [Str '' Valid:'', Str '' Result: '', IntV (mResult vm)])])
                 else if index_diff then
                   (Inr (), j @
                     [(kDebug, [Str ''MISMATCH on TX '', U256 tx, Str '': Different index!'']),
                      (kDebug, [Str '' Built:'', Str '' Index: '', Num (unat (mIndex bm))]),
                      (kDebug, [Str '' Valid:'', Str '' Index: '', Num (unat (mIndex vm))])])
                 else (Inr (), j))
              else
                (if result_diff \<and> index_diff then
                   (Inr (), j @
                     [(kDebug, [Str ''MISMATCH on TX '', U256 tx,
                                Str '': Different result, index and nodes!'']),
                      (kDebug, [Str '' Built:\<newline>'', MetaJson bm]),
                      (kDebug, [Str '' Valid:\<newline>'', MetaJson vm])])
                 else if result_diff then
                   (Inr (), j @
                     [(kDebug, [Str ''MISMATCH on TX '', U256 tx,
                                Str '': Different result and nodes!'']),
                      (kDebug, [Str '' Built:'', Str '' Result: '', IntV (mResult bm),
                                Str '' Nodes:\<newline>'', NodesJson builtNodes]),
                      (kDebug, [Str '' Valid:'', Str '' Result: '', IntV (mResult vm),
                                Str '' Nodes:\<newline>'', NodesJson validNodes])])
                 else if index_diff then
                   (Inr (), j @
                     [(kDebug, [Str ''MISMATCH on TX '', U256 tx,
                                Str '': Different index and nodes!'']),
                      (kDebug, [Str '' Built:'', Str '' Index: '', Num (unat (mIndex bm)),
                                Str '' Nodes:\<newline>'', NodesJson builtNodes]),
                      (kDebug, [Str '' Valid:'', Str '' Index: '', Num (unat (mIndex vm)),
                                Str '' Nodes:\<newline>'', NodesJson validNodes])])
                 else
                   (Inr (), j @
                     [(kDebug, [Str ''MISMATCH on TX '', U256 tx, Str '': Different nodes!'']),
                      (kDebug, [Str '' Built:'', Str '' Nodes:\<newline>'', NodesJson builtNodes]),
                      (kDebug, [Str '' Valid:'', Str '' Nodes:\<newline>'', NodesJson validNodes])])))
         | (Some vm, None) \<Rightarrow>
             (Inr (), j @ [(kError, [Str ''MISMATCH on TX '', U256 tx,
                                    Str '': Metadata Difference (built has none)\<newline>'',
                                    MetaJson vm])])
         | (None, Some bm) \<Rightarrow>
             (Inr (), j @ [(kError, [Str ''MISMATCH on TX '', U256 tx,
                                    Str '': Metadata Difference (valid has none)\<newline>'',
                                    MetaJson bm])])
         | (None, None) \<Rightarrow> (Inl NullDereference, j)))"

text \<open>
  The lambda \<open>leaves\<close>: the addresses of the leaves, sorted by the key of the leaf
  each points to. The keys of one SHAMap are pairwise different, so the order
  \<open>std::sort\<close> leaves them in is the one \<open>sort_key\<close> computes.
\<close>

definition leaves :: "Env \<Rightarrow> nat list \<Rightarrow> nat list" where
  "leaves env sm = sort_key (\<lambda>p. key (heap env p)) sm"

text \<open>
  Lines 391-420: the \<open>while\<close> loop over the two iterators \<open>b\<close> and \<open>v\<close> and the two
  \<open>for\<close> loops that drain what is left of either vector.
\<close>

fun log_differences ::
  "Env \<Rightarrow> Ledger \<Rightarrow> Ledger \<Rightarrow> nat list \<Rightarrow> nat list \<Rightarrow> LogLine list
     \<Rightarrow> (error + unit) \<times> LogLine list" where
  "log_differences env builtLedger validLedger (b # bs) (v # vs) j =
     (if key (heap env b) < key (heap env v)
      then log_differences env builtLedger validLedger bs (v # vs)
             (log_one builtLedger (key (heap env b)) ''valid'' j)
      else if key (heap env b) > key (heap env v)
      then log_differences env builtLedger validLedger (b # bs) vs
             (log_one validLedger (key (heap env v)) ''built'' j)
      else if slice_data (heap env b) \<noteq> slice_data (heap env v)
      then (case log_metadata_difference env builtLedger validLedger (key (heap env b)) j of
              (Inl e, j') \<Rightarrow> (Inl e, j')
            | (Inr u, j') \<Rightarrow> log_differences env builtLedger validLedger bs vs j')
      else log_differences env builtLedger validLedger bs vs j)"
| "log_differences env builtLedger validLedger (b # bs) [] j =
     log_differences env builtLedger validLedger bs []
       (log_one builtLedger (key (heap env b)) ''valid'' j)"
| "log_differences env builtLedger validLedger [] (v # vs) j =
     log_differences env builtLedger validLedger [] vs
       (log_one validLedger (key (heap env v)) ''built'' j)"
| "log_differences env builtLedger validLedger [] [] j = (Inr (), j)"

definition handleMismatch ::
  "Env \<Rightarrow> LedgerHash \<Rightarrow> LedgerHash \<Rightarrow> uint256 option \<Rightarrow> uint256 option \<Rightarrow> JsonValue
     \<Rightarrow> LedgerHistory \<Rightarrow> (error + unit) \<times> LedgerHistory" where
  "handleMismatch env builtH validH builtCH validatedCH consensusJ s =
     (if assert_fails env (builtH \<noteq> validH)
      then (Inl (AssertionFailed ''built != valid''), s)
      else
        let s0 = s\<lparr>mismatch_counter := mismatch_counter s + 1\<rparr> in
        (case getLedgerByHash env builtH s0 of
           (Inl e, s1) \<Rightarrow> (Inl e, s1)
         | (Inr builtLedger, s1) \<Rightarrow>
        (case getLedgerByHash env validH s1 of
           (Inl e, s2) \<Rightarrow> (Inl e, s2)
         | (Inr validLedger, s2) \<Rightarrow>
        (case (builtLedger, validLedger) of
           (Some bl, Some vl) \<Rightarrow>
             if assert_fails env (seq (info bl) = seq (info vl))
             then (Inl (AssertionFailed ''builtLedger->info().seq == validLedger->info().seq''), s2)
             else
               let s3 = JLOG (kDebug, [Str ''Mismatch on '', Num (unat (seq (info bl))),
                                       Str '':\<newline>'',
                                       Str ''     Built: '', LedgerJson (info bl), Str ''\<newline>'',
                                       Str ''     Valid: '', LedgerJson (info vl), Str ''\<newline>'',
                                       Str '' Consensus: '', Json consensusJ]) s2
               in
               if parentHash (info bl) \<noteq> parentHash (info vl)
               then (Inr (), JLOG (kError, [Str ''MISMATCH on prior ledger'']) s3)
               else if closeTime (info bl) \<noteq> closeTime (info vl)
               then (Inr (), JLOG (kError, [Str ''MISMATCH on close time'']) s3)
               else
                 let s4 = (case (builtCH, validatedCH) of
                             (Some bch, Some vch) \<Rightarrow>
                               if bch \<noteq> vch
                               then JLOG (kError, [Str ''MISMATCH on consensus transaction set '',
                                                   Str '' built: '', U256 bch,
                                                   Str '' validated: '', U256 vch]) s3
                               else JLOG (kError,
                                          [Str ''MISMATCH with same consensus transaction set: '',
                                           U256 bch]) s3
                           | _ \<Rightarrow> s3);
                     builtTx = leaves env (txMap bl);
                     validTx = leaves env (txMap vl);
                     s5 = (if builtTx = validTx
                           then JLOG (kError, [Str ''MISMATCH with same '', Num (length builtTx),
                                               Str '' transactions'']) s4
                           else JLOG (kError, [Str ''MISMATCH with '', Num (length builtTx),
                                               Str '' built and '', Num (length validTx),
                                               Str '' valid transactions.'']) s4);
                     s6 = JLOG (kError, [Str ''built\<newline>'', LedgerJson (info bl)]) s5;
                     s7 = JLOG (kError, [Str ''valid\<newline>'', LedgerJson (info vl)]) s6;
                     (r, j') = log_differences env bl vl builtTx validTx (journal s7)
                 in (r, s7\<lparr>journal := j'\<rparr>)
         | _ \<Rightarrow>
             (Inr (), JLOG (kError, [Str ''MISMATCH cannot be analyzed:'',
                                     Str '' builtLedger: '', U256 builtH, Str '' -> '',
                                     Ptr (builtLedger \<noteq> None),
                                     Str '' validLedger: '', U256 validH, Str '' -> '',
                                     Ptr (validLedger \<noteq> None)]) s2)))))"

section \<open>LedgerHistory.cpp: built and validated ledgers\<close>

text \<open>
  \<open>entry\<close> is a shared pointer to the object the cache holds for \<open>index\<close>, so the
  three assignments at the end change the cached object; \<open>handleMismatch\<close>
  does not touch \<open>consensusValidated_\<close> in between.
\<close>

definition builtLedger ::
  "Env \<Rightarrow> Ledger \<Rightarrow> uint256 \<Rightarrow> JsonValue \<Rightarrow> LedgerHistory \<Rightarrow> (error + unit) \<times> LedgerHistory" where
  "builtLedger env ledger consensusHash consensusJ s =
     (let index = seq (info ledger);
          h = hash (info ledger)
      in
      if assert_fails env (h \<noteq> 0) then (Inl (AssertionFailed ''!hash.isZero()''), s)
      else
        let (entry, c) = retrieve_or_insert (consensusValidated s) index make_cv_entry;
            s1 = s\<lparr>consensusValidated := c\<rparr>;
            (r, s2) =
              (case (validated entry, built entry) of
                 (Some vh, None) \<Rightarrow>
                   if vh \<noteq> h
                   then handleMismatch env h vh (Some consensusHash)
                          (validatedConsensusHash entry) consensusJ
                          (JLOG (kError, [Str ''MISMATCH: seq='', Num (unat index),
                                          Str '' validated:'', U256 vh,
                                          Str '' then:'', U256 h]) s1)
                   else (Inr (), JLOG (kDebug, [Str ''MATCH: seq='', Num (unat index),
                                                Str '' late'']) s1)
               | _ \<Rightarrow> (Inr (), s1))
        in
        (case r of
           Inl e \<Rightarrow> (Inl e, s2)
         | Inr u \<Rightarrow>
             (Inr (), s2\<lparr>consensusValidated :=
                          (consensusValidated s2)(index \<mapsto>
                             entry\<lparr>built := Some h,
                                   builtConsensusHash := Some consensusHash,
                                   consensus := Some consensusJ\<rparr>)\<rparr>)))"

definition validatedLedger ::
  "Env \<Rightarrow> Ledger \<Rightarrow> uint256 option \<Rightarrow> LedgerHistory \<Rightarrow> (error + unit) \<times> LedgerHistory" where
  "validatedLedger env ledger consensusHash s =
     (let index = seq (info ledger);
          h = hash (info ledger)
      in
      if assert_fails env (h \<noteq> 0) then (Inl (AssertionFailed ''!hash.isZero()''), s)
      else
        let (entry, c) = retrieve_or_insert (consensusValidated s) index make_cv_entry;
            s1 = s\<lparr>consensusValidated := c\<rparr>;
            (r, s2) =
              (case (built entry, validated entry) of
                 (Some bh, None) \<Rightarrow>
                   if bh \<noteq> h
                   then
                     let s1' = JLOG (kError, [Str ''Mismatch on validated ledger (seq '',
                                              Num (unat index), Str ''): built is'', U256 bh,
                                              Str '', validated is:'', U256 h]) s1
                     in (case consensus entry of
                           None \<Rightarrow> (Inl BadOptionalAccess, s1')
                         | Some cj \<Rightarrow>
                             handleMismatch env bh h (builtConsensusHash entry)
                               consensusHash cj s1')
                   else (Inr (), s1)
               | _ \<Rightarrow> (Inr (), s1))
        in
        (case r of
           Inl e \<Rightarrow> (Inl e, s2)
         | Inr u \<Rightarrow>
             (Inr (), s2\<lparr>consensusValidated :=
                          (consensusValidated s2)(index \<mapsto>
                             entry\<lparr>validated := Some h,
                                   validatedConsensusHash := consensusHash\<rparr>)\<rparr>)))"

section \<open>The envelope as the specification reads it\<close>

text \<open>
  The readers of the header, from the specification's words: bytes 0-3 are a
  big-endian 32-bit field whose bits 27..0 are the payload length, whose bit
  31 is the compression flag and whose bits 30..28 select the algorithm;
  bytes 4-5 are the big-endian 16-bit type code.
\<close>

definition be32 :: "uint8_t list \<Rightarrow> 32 word" where
  "be32 bs = push_bit 24 (ucast (bs ! 0)) OR push_bit 16 (ucast (bs ! 1))
             OR push_bit 8 (ucast (bs ! 2)) OR ucast (bs ! 3)"

definition be16 :: "uint8_t list \<Rightarrow> 16 word" where
  "be16 bs = push_bit 8 (ucast (bs ! 0)) OR ucast (bs ! 1)"

definition header_length :: "uint8_t list \<Rightarrow> 32 word" where
  "header_length bs = take_bit 28 (be32 bs)"

definition header_type :: "uint8_t list \<Rightarrow> 16 word" where
  "header_type bs = be16 (drop 4 bs)"

definition header_compressed :: "uint8_t list \<Rightarrow> bool" where
  "header_compressed bs = bit (be32 bs) 31"

definition header_algorithm :: "uint8_t list \<Rightarrow> 3 word" where
  "header_algorithm bs = ucast (drop_bit 28 (be32 bs))"

text \<open>A protocol table for the concrete runs: the type codes of ripple.proto.\<close>

definition protocol0 :: Protocol where
  "protocol0 = \<lparr>NDEBUG = False, mtMANIFESTS = 2, mtENDPOINTS = 15, mtTRANSACTION = 30,
     mtGET_LEDGER = 31, mtLEDGER_DATA = 32, mtGET_OBJECTS = 42, mtVALIDATORLIST = 54,
     LZ4 = 1, compress = (\<lambda>bs. take 10 bs)\<rparr>"

section \<open>Calls in sequence\<close>

text \<open>
  A sequential interleaving of the two entry points of the tracker: the calls
  are made one after the other on the same object, and a call that does not
  return ends the run.
\<close>

datatype Event =
    Built Ledger uint256 JsonValue
  | Validated Ledger "uint256 option"

fun event_ledger :: "Event \<Rightarrow> Ledger" where
  "event_ledger (Built l ch cj) = l"
| "event_ledger (Validated l ch) = l"

fun apply_event :: "Env \<Rightarrow> Event \<Rightarrow> LedgerHistory \<Rightarrow> (error + unit) \<times> LedgerHistory" where
  "apply_event env (Built l ch cj) s = builtLedger env l ch cj s"
| "apply_event env (Validated l ch) s = validatedLedger env l ch s"

fun run_events :: "Env \<Rightarrow> Event list \<Rightarrow> LedgerHistory \<Rightarrow> (error + unit) \<times> LedgerHistory" where
  "run_events env [] s = (Inr (), s)"
| "run_events env (e # es) s =
     (case apply_event env e s of
        (Inl err, s') \<Rightarrow> (Inl err, s')
      | (Inr u, s') \<Rightarrow> run_events env es s')"

section \<open>The diagnosis as the specification words it\<close>

text \<open>
  The classification of a metadata difference names the fields that differ:
  the names in the order result, index, nodes, joined as an English list.
\<close>

definition differing_fields :: "bool \<Rightarrow> bool \<Rightarrow> bool \<Rightarrow> string list" where
  "differing_fields r i n =
     (if r then [''result''] else []) @ (if i then [''index''] else [])
       @ (if n then [''nodes''] else [])"

fun english_list :: "string list \<Rightarrow> string" where
  "english_list [] = []"
| "english_list [a] = a"
| "english_list [a, b] = a @ '' and '' @ b"
| "english_list (a # b # c # r) = a @ '', '' @ english_list (b # c # r)"

text \<open>A line that opens the report on one transaction.\<close>

fun is_tx_headline :: "LogLine \<Rightarrow> bool" where
  "is_tx_headline (sev, Str t # rest) = (t = ''MISMATCH on TX '')"
| "is_tx_headline (sev, parts) = False"

text \<open>
  The summary line of the transaction-level stage: the counts, in the form
  that says the two vectors were the same or in the form that gives both.
\<close>

fun is_summary :: "LogLine \<Rightarrow> bool" where
  "is_summary (sev, Str t # rest) = (t = ''MISMATCH with same '' \<or> t = ''MISMATCH with '')"
| "is_summary (sev, parts) = False"

definition summary_same :: "nat \<Rightarrow> LogLine" where
  "summary_same n = (kError, [Str ''MISMATCH with same '', Num n, Str '' transactions''])"

definition summary_counts :: "nat \<Rightarrow> nat \<Rightarrow> LogLine" where
  "summary_counts b v =
     (kError, [Str ''MISMATCH with '', Num b, Str '' built and '', Num v,
               Str '' valid transactions.''])"

text \<open>
  The merge-join, key by key. \<open>tx_entry\<close> is the bytes a ledger's transaction
  set holds under a key, if it holds the key. \<open>expected_tx_log\<close> is what the
  specification asks for one key: a key on one side is reported missing from
  the other, a key on both sides with the same bytes is passed over, a key on
  both sides with different bytes goes to the classification. \<open>for_each\<close>
  does that for a list of keys in order, stopping where a step does not return.
\<close>

definition tx_entry :: "Env \<Rightarrow> nat list \<Rightarrow> uint256 \<Rightarrow> Slice option" where
  "tx_entry env ps k =
     map_option (\<lambda>p. slice_data (heap env p)) (find (\<lambda>p. key (heap env p) = k) ps)"

definition expected_tx_log ::
  "Env \<Rightarrow> Ledger \<Rightarrow> Ledger \<Rightarrow> nat list \<Rightarrow> nat list \<Rightarrow> uint256 \<Rightarrow> LogLine list
     \<Rightarrow> (error + unit) \<times> LogLine list" where
  "expected_tx_log env bl vl bs vs k j =
     (case (tx_entry env bs k, tx_entry env vs k) of
        (Some x, None) \<Rightarrow> (Inr (), log_one bl k ''valid'' j)
      | (None, Some y) \<Rightarrow> (Inr (), log_one vl k ''built'' j)
      | (Some x, Some y) \<Rightarrow>
          if x \<noteq> y then log_metadata_difference env bl vl k j else (Inr (), j)
      | (None, None) \<Rightarrow> (Inr (), j))"

fun for_each ::
  "('a \<Rightarrow> 's \<Rightarrow> (error + unit) \<times> 's) \<Rightarrow> 'a list \<Rightarrow> 's \<Rightarrow> (error + unit) \<times> 's" where
  "for_each f [] s = (Inr (), s)"
| "for_each f (x # xs) s =
     (case f x s of
        (Inl e, s') \<Rightarrow> (Inl e, s')
      | (Inr u, s') \<Rightarrow> for_each f xs s')"

definition tx_keys :: "Env \<Rightarrow> nat list \<Rightarrow> uint256 list" where
  "tx_keys env ps = map (\<lambda>p. key (heap env p)) ps"

section \<open>Ledgers and states for the concrete runs\<close>

definition env0 :: Env where
  "env0 = \<lparr>NDEBUG = False, loadByHash = (\<lambda>h. None), loadByIndex = (\<lambda>i. None),
           heap = (\<lambda>p. \<lparr>key = word_of_nat (p div 2), slice_data = [word_of_nat p]\<rparr>)\<rparr>"

definition history0 :: LedgerHistory where
  "history0 = \<lparr>ledgerCache = Map.empty, mLedgersByIndex = Map.empty,
               consensusValidated = Map.empty, mismatch_counter = 0, journal = []\<rparr>"

definition meta0 :: "uint8_t \<Rightarrow> STObject" where
  "meta0 r = \<lparr>sfTransactionResult = r, sfTransactionIndex = 0, sfAffectedNodes = []\<rparr>"

text \<open>
  \<open>ledger0 h p t ps\<close>: an immutable ledger of sequence 5 with hash \<open>h\<close>, parent
  \<open>p\<close>, close time \<open>t\<close> and leaves \<open>ps\<close>, whose every transaction reads back with
  result code \<open>h\<close>.
\<close>

definition ledger0 :: "uint256 \<Rightarrow> uint256 \<Rightarrow> nat \<Rightarrow> nat list \<Rightarrow> Ledger" where
  "ledger0 h p t ps =
     \<lparr>info = \<lparr>seq = 5, hash = h, parentHash = p, closeTime = t\<rparr>,
      isImmutable = True, stateMapHash = 7, txMap = ps,
      txRead = (\<lambda>k. Some (meta0 (ucast h)))\<rparr>"

section \<open>The lines of the analyzer, named\<close>

text \<open>
  The lines \<open>handleMismatch\<close> writes before the transaction-level loop, under
  names the statements below can use: the debug line that opens the report,
  the line on the two consensus-set hashes, the summary and the two dumps.
\<close>

definition mismatch_header :: "Ledger \<Rightarrow> Ledger \<Rightarrow> JsonValue \<Rightarrow> LogLine" where
  "mismatch_header bl vl cj =
     (kDebug, [Str ''Mismatch on '', Num (unat (seq (info bl))), Str '':\<newline>'',
               Str ''     Built: '', LedgerJson (info bl), Str ''\<newline>'',
               Str ''     Valid: '', LedgerJson (info vl), Str ''\<newline>'',
               Str '' Consensus: '', Json cj])"

definition consensus_set_lines :: "uint256 option \<Rightarrow> uint256 option \<Rightarrow> LogLine list" where
  "consensus_set_lines builtCH validatedCH =
     (case (builtCH, validatedCH) of
        (Some bch, Some vch) \<Rightarrow>
          if bch \<noteq> vch
          then [(kError, [Str ''MISMATCH on consensus transaction set '',
                          Str '' built: '', U256 bch, Str '' validated: '', U256 vch])]
          else [(kError, [Str ''MISMATCH with same consensus transaction set: '', U256 bch])]
      | _ \<Rightarrow> [])"

definition summary_line :: "Env \<Rightarrow> Ledger \<Rightarrow> Ledger \<Rightarrow> LogLine" where
  "summary_line env bl vl =
     (if leaves env (txMap bl) = leaves env (txMap vl)
      then summary_same (length (leaves env (txMap bl)))
      else summary_counts (length (leaves env (txMap bl))) (length (leaves env (txMap vl))))"

definition ledger_dumps :: "Ledger \<Rightarrow> Ledger \<Rightarrow> LogLine list" where
  "ledger_dumps bl vl =
     [(kError, [Str ''built\<newline>'', LedgerJson (info bl)]),
      (kError, [Str ''valid\<newline>'', LedgerJson (info vl)])]"

text \<open>
  An invocation of the analyzer in which both hashes resolve to ledgers, and
  which passes the assertions of \<open>handleMismatch\<close>: \<open>s2\<close> is the state after the
  two lookups.
\<close>

definition resolves ::
  "Env \<Rightarrow> LedgerHash \<Rightarrow> LedgerHash \<Rightarrow> LedgerHistory \<Rightarrow> Ledger \<Rightarrow> Ledger \<Rightarrow> LedgerHistory
     \<Rightarrow> bool" where
  "resolves env builtH validH s bl vl s2 =
     (\<exists>s1. getLedgerByHash env builtH (s\<lparr>mismatch_counter := mismatch_counter s + 1\<rparr>)
              = (Inr (Some bl), s1) \<and>
           getLedgerByHash env validH s1 = (Inr (Some vl), s2) \<and>
           (NDEBUG env \<or> (builtH \<noteq> validH \<and> seq (info bl) = seq (info vl))))"

text \<open>A history whose cache holds two ledgers, each under its hash.\<close>

definition history_with :: "Ledger \<Rightarrow> Ledger \<Rightarrow> LedgerHistory" where
  "history_with a b =
     history0\<lparr>ledgerCache := [hash (info a) \<mapsto> a, hash (info b) \<mapsto> b]\<rparr>"

text \<open>The entry the tracker works on for a sequence: the cached one, or a fresh one.\<close>

definition entry_of :: "LedgerHistory \<Rightarrow> LedgerIndex \<Rightarrow> cv_entry" where
  "entry_of s i = (case consensusValidated s i of None \<Rightarrow> make_cv_entry | Some e \<Rightarrow> e)"

text \<open>
  The bound the counter obeys for a sequence, relative to its value \<open>c0\<close> when the
  sequence had no entry: it has not moved while a side of the entry is
  missing, and has moved by at most one afterwards.
\<close>

definition counted_once :: "nat \<Rightarrow> LedgerIndex \<Rightarrow> LedgerHistory \<Rightarrow> bool" where
  "counted_once c0 i s =
     (if built (entry_of s i) \<noteq> None \<and> validated (entry_of s i) \<noteq> None
      then mismatch_counter s \<le> c0 + 1
      else mismatch_counter s = c0)"

section \<open>Facts about the envelope\<close>

lemma bit_consts32:
  "bit (0xFF :: 32 word) k \<longleftrightarrow> k < 8"
  "bit (0x80 :: 32 word) k \<longleftrightarrow> k = 7"
  "bit (0xF0 :: 32 word) k \<longleftrightarrow> 4 \<le> k \<and> k < 8"
  "bit (0x80000000 :: 32 word) k \<longleftrightarrow> k = 31"
proof -
  have e1: "(0xFF :: 32 word) = mask 8" by (simp add: mask_eq_exp_minus_1)
  show "bit (0xFF :: 32 word) k \<longleftrightarrow> k < 8" unfolding e1 bit_mask_iff by auto
  have e2: "(0x80 :: 32 word) = 2 ^ 7" by simp
  show "bit (0x80 :: 32 word) k \<longleftrightarrow> k = 7" unfolding e2 bit_exp_iff by auto
  have e3: "(0xF0 :: 32 word) = push_bit 4 (mask 4)" by (simp add: mask_eq_exp_minus_1)
  show "bit (0xF0 :: 32 word) k \<longleftrightarrow> 4 \<le> k \<and> k < 8"
    unfolding e3 bit_push_bit_iff bit_mask_iff by auto
  have e4: "(0x80000000 :: 32 word) = 2 ^ 31" by simp
  show "bit (0x80000000 :: 32 word) k \<longleftrightarrow> k = 31" unfolding e4 bit_exp_iff by auto
qed

lemma bit_consts_int:
  "bit (0xFF :: int) k \<longleftrightarrow> k < 8"
  "bit (0x80 :: int) k \<longleftrightarrow> k = 7"
  "bit (0xF0 :: int) k \<longleftrightarrow> 4 \<le> k \<and> k < 8"
proof -
  have e1: "(0xFF :: int) = mask 8" by (simp add: mask_eq_exp_minus_1)
  show "bit (0xFF :: int) k \<longleftrightarrow> k < 8" unfolding e1 bit_mask_iff by auto
  have e2: "(0x80 :: int) = 2 ^ 7" by simp
  show "bit (0x80 :: int) k \<longleftrightarrow> k = 7" unfolding e2 bit_exp_iff by auto
  have e3: "(0xF0 :: int) = push_bit 4 (mask 4)" by (simp add: mask_eq_exp_minus_1)
  show "bit (0xF0 :: int) k \<longleftrightarrow> 4 \<le> k \<and> k < 8"
    unfolding e3 bit_push_bit_iff bit_mask_iff by auto
qed

lemma byte_ranges:
  assumes "i < (32::nat)"
  obtains "i < 8" | k where "i = 8 + k" "k < 8" | k where "i = 16 + k" "k < 8"
    | k where "i = 24 + k" "k < 8"
proof -
  have "i < 8 \<or> (\<exists>k. i = 8 + k \<and> k < 8) \<or> (\<exists>k. i = 16 + k \<and> k < 8)
        \<or> (\<exists>k. i = 24 + k \<and> k < 8)"
    using assms by presburger
  then show ?thesis using that by blast
qed

text \<open>The 32-bit field of the header: the length, with the flag nibble laid over its top.\<close>

lemma bit_be32_set_header:
  assumes "i < 32"
  shows "bit (be32 (set_header n t c a)) i \<longleftrightarrow>
           bit n i \<or> (c \<and> (i = 31 \<or> (28 \<le> i \<and> i < 31 \<and> bit a (i - 28))))"
  using assms
proof (cases rule: byte_ranges)
  case 1
  then show ?thesis
    by (simp add: be32_def set_header_def bit_simps bit_consts32 bit_consts_int)
next
  case (2 k)
  then show ?thesis
    by (simp add: be32_def set_header_def bit_simps bit_consts32 bit_consts_int)
next
  case (3 k)
  then show ?thesis
    by (simp add: be32_def set_header_def bit_simps bit_consts32 bit_consts_int)
next
  case (4 k)
  then show ?thesis
    by (auto simp add: be32_def set_header_def bit_simps bit_consts32 bit_consts_int)
qed

lemma be16_set_header: "be16 (drop 4 (set_header n t c a)) = ucast t"
proof (rule bit_word_eqI)
  fix i :: nat
  assume "i < LENGTH(16)"
  then have "i < 8 \<or> (\<exists>k. i = 8 + k \<and> k < 8)" by simp presburger
  then show "bit (be16 (drop 4 (set_header n t c a))) i = bit (ucast t :: 16 word) i"
    by (auto simp add: be16_def set_header_def bit_simps bit_consts32 bit_consts_int)
qed

lemma length_set_header: "length (set_header n t c a) = 6"
  by (simp add: set_header_def Let_def)

lemma be32_append: "4 \<le> length hs \<Longrightarrow> be32 (hs @ xs) = be32 hs"
  by (auto simp add: be32_def nth_append)

lemma be16_drop_append: "length hs = 6 \<Longrightarrow> be16 (drop 4 (hs @ xs)) = be16 (drop 4 hs)"
  by (simp add: be16_def nth_append)

lemma take_bit_self_word:
  fixes n :: "32 word"
  assumes "unat n < 2 ^ k"
  shows "take_bit k n = n"
  using assms by (metis unsigned_take_bit_eq word_eq_iff_unsigned take_bit_nat_eq_self_iff)

lemma bit_bounded_word:
  fixes n :: "32 word"
  assumes "unat n < 2 ^ k" and "bit n i"
  shows "i < k"
  using assms by (metis take_bit_self_word bit_take_bit_iff)

lemma header_length_set_header:
  assumes "unat n < 2 ^ 28"
  shows "header_length (set_header n t c a @ xs) = n"
proof -
  have "header_length (set_header n t c a @ xs) = take_bit 28 (be32 (set_header n t c a))"
    by (simp add: header_length_def be32_append length_set_header)
  also have "\<dots> = take_bit 28 n"
    by (rule bit_word_eqI) (auto simp add: bit_take_bit_iff bit_be32_set_header)
  finally show ?thesis using take_bit_self_word [OF assms] by simp
qed

lemma header_type_set_header:
  assumes "unat t < 2 ^ 16"
  shows "ucast (header_type (set_header n t c a @ xs)) = t"
proof -
  have "header_type (set_header n t c a @ xs) = be16 (drop 4 (set_header n t c a))"
    unfolding header_type_def by (rule be16_drop_append) (rule length_set_header)
  then have "header_type (set_header n t c a @ xs) = ucast t"
    by (simp only: be16_set_header)
  moreover have "ucast (ucast t :: 16 word) = t"
    by (rule bit_word_eqI)
       (auto simp add: bit_simps dest: bit_bounded_word [OF assms])
  ultimately show ?thesis by simp
qed

lemma header_flags_set_header:
  assumes "unat n < 2 ^ 28"
  shows "header_compressed (set_header n t True a @ xs)"
    and "header_algorithm (set_header n t True a @ xs) = ucast a"
proof -
  have b: "be32 (set_header n t True a @ xs) = be32 (set_header n t True a)"
    by (simp add: be32_append length_set_header)
  show "header_compressed (set_header n t True a @ xs)"
    unfolding header_compressed_def b by (simp add: bit_be32_set_header)
  have nb: "\<not> bit n (28 + k)" for k
    using bit_bounded_word [OF assms, of "28 + k"] by auto
  show "header_algorithm (set_header n t True a @ xs) = ucast a"
    unfolding header_algorithm_def b
    by (rule bit_word_eqI)
       (auto simp add: bit_ucast_iff bit_drop_bit_eq bit_be32_set_header nb)
qed

lemma unat_messageBytes:
  assumes "n < 2 ^ 32"
  shows "unat (word_of_nat n :: 32 word) = n"
  using assms by (simp add: unat_of_nat)

lemma ratio_positive:
  fixes a b :: nat
  assumes "0 < b"
  shows "0 < 1 - real a / real b \<longleftrightarrow> a < b"
proof -
  have "real a / real b < 1 \<longleftrightarrow> real a < real b"
    using assms by (simp add: divide_less_eq_1_pos)
  then show ?thesis by simp
qed

text \<open>
  C8. A compressed buffer exists exactly when compression is enabled, the type
  is one of the seven of the allow-list, the payload is longer than 70 bytes
  and the compressed bytes are strictly fewer than the payload's; it then
  holds the compressed bytes behind a header with the flag set. The
  uncompressed buffer is built in every case, and is the only one otherwise.
\<close>

theorem Message_compression_conditions:
  assumes "Message_ctor p payload mtype compression_enabled = Inr m"
    and "length payload < 2 ^ 32"
    and "length (compress p payload) < 2 ^ 32"
  shows "mBuffer m = set_header (word_of_nat (length payload)) mtype False (LZ4 p) @ payload \<and>
         (mBufferCompressed m \<noteq> [] \<longleftrightarrow>
            compression_enabled \<and>
            (mtype = mtMANIFESTS p \<or> mtype = mtENDPOINTS p \<or> mtype = mtTRANSACTION p \<or>
             mtype = mtGET_LEDGER p \<or> mtype = mtLEDGER_DATA p \<or> mtype = mtGET_OBJECTS p \<or>
             mtype = mtVALIDATORLIST p) \<and>
            70 < length payload \<and>
            length (compress p payload) < length payload) \<and>
         (mBufferCompressed m \<noteq> [] \<longrightarrow>
            mBufferCompressed m =
              set_header (word_of_nat (length (compress p payload))) mtype True (LZ4 p)
                @ compress p payload)"
proof -
  let ?mb = "word_of_nat (length payload) :: 32 word"
  let ?cs = "word_of_nat (length (compress p payload)) :: 32 word"
  have mb: "unat ?mb = length payload" by (rule unat_messageBytes) (rule assms(2))
  have cs: "unat ?cs = length (compress p payload)" by (rule unat_messageBytes) (rule assms(3))
  have gt: "70 < ?mb \<longleftrightarrow> 70 < length payload"
    by (simp add: word_less_nat_alt mb)
  have ratio: "0 < 1 - real (unat ?cs) / real (unat ?mb) \<longleftrightarrow>
               length (compress p payload) < length payload" if "70 < length payload"
    using that ratio_positive [where b = "length payload" and a = "length (compress p payload)"]
    by (simp only: mb cs)
  then have ratio': "(unsigned ?cs :: real) / unsigned ?mb < 1 \<longleftrightarrow>
               length (compress p payload) < length payload" if "70 < length payload"
    using that by simp
  have hdr: "set_header n t c a \<noteq> []" for n t c a
    by (simp add: set_header_def Let_def)
  show ?thesis
  proof (cases "compressible p ?mb mtype compression_enabled")
    case False
    with assms(1) have "m = \<lparr>mBuffer = set_header ?mb mtype False (LZ4 p) @ payload,
                              mBufferCompressed = []\<rparr>"
      by (auto simp add: Message_ctor_def Let_def split: if_splits)
    with False show ?thesis
      by (auto simp add: compressible_def gt)
  next
    case True
    then have long: "70 < length payload" by (simp add: compressible_def gt)
    show ?thesis
    proof (cases "length (compress p payload) < length payload")
      case less: True
      with assms(1) True long
      have "m = \<lparr>mBuffer = set_header ?mb mtype False (LZ4 p) @ payload,
                  mBufferCompressed = set_header ?cs mtype True (LZ4 p)
                                       @ take (unat ?cs) (compress p payload)\<rparr>"
        by (auto simp add: Message_ctor_def Let_def ratio' hdr split: if_splits)
      with True less long show ?thesis
        by (auto simp add: compressible_def cs hdr)
    next
      case False
      with assms(1) True long
      have "m = \<lparr>mBuffer = set_header ?mb mtype False (LZ4 p) @ payload,
                  mBufferCompressed = []\<rparr>"
        by (auto simp add: Message_ctor_def Let_def ratio' hdr split: if_splits)
      with False show ?thesis by simp
    qed
  qed
qed

theorem Message_compression_conditions_witness:
  "Message_ctor protocol0 (replicate 71 7) 2 True =
     Inr \<lparr>mBuffer = set_header 71 2 False 1 @ replicate 71 7,
          mBufferCompressed = set_header 10 2 True 1 @ replicate 10 7\<rparr> \<and>
   length (replicate 71 (7 :: uint8_t)) < 2 ^ 32 \<and>
   length (compress protocol0 (replicate 71 7)) < 2 ^ 32 \<and>
   length (compress protocol0 (replicate 71 7)) < length (replicate 71 (7 :: uint8_t)) \<and>
   set_header 10 2 True 1 @ replicate 10 (7 :: uint8_t) \<noteq> []"
proof -
  have run: "Message_ctor protocol0 (replicate 71 7) 2 True =
     Inr \<lparr>mBuffer = set_header 71 2 False 1 @ replicate 71 7,
          mBufferCompressed = set_header 10 2 True 1 @ replicate 10 7\<rparr>"
    by (simp add: Message_ctor_def protocol0_def compressible_def assert_fails_def Let_def)
  have l1: "length (replicate 71 (7 :: uint8_t)) < 2 ^ 32" by simp
  have l2: "length (compress protocol0 (replicate 71 7)) < 2 ^ 32"
    by (simp add: protocol0_def)
  from Message_compression_conditions [OF run l1 l2] run l1 l2 show ?thesis
    by (simp add: protocol0_def)
qed

text \<open>
  C9, as amended. For a payload shorter than \<open>2^28\<close> bytes and a type code below
  \<open>2^16\<close>, either buffer of a constructed message starts with a header whose
  bits 27..0 are the length of what follows, and whose bytes 4-5 are the type
  code; the header of the compressed buffer has bit 31 set and the low three
  bits of the algorithm in bits 30..28.
\<close>

theorem Message_header_layout:
  assumes "Message_ctor p payload mtype compression_enabled = Inr m"
    and "length payload < 2 ^ 28"
    and "unat mtype < 2 ^ 16"
  shows "unat (header_length (mBuffer m)) = length (drop 6 (mBuffer m)) \<and>
         drop 6 (mBuffer m) = payload \<and>
         ucast (header_type (mBuffer m)) = mtype \<and>
         (mBufferCompressed m \<noteq> [] \<longrightarrow>
            unat (header_length (mBufferCompressed m)) = length (drop 6 (mBufferCompressed m)) \<and>
            ucast (header_type (mBufferCompressed m)) = mtype \<and>
            header_compressed (mBufferCompressed m) \<and>
            header_algorithm (mBufferCompressed m) = ucast (LZ4 p))"
proof -
  let ?mb = "word_of_nat (length payload) :: 32 word"
  let ?cs = "word_of_nat (length (compress p payload)) :: 32 word"
  have mb: "unat ?mb = length payload"
    using assms(2) by (intro unat_messageBytes) simp
  then have mb28: "unat ?mb < 2 ^ 28" using assms(2) by simp
  have buf: "mBuffer m = set_header ?mb mtype False (LZ4 p) @ payload"
    using assms(1) by (auto simp add: Message_ctor_def Let_def split: if_splits)
  have uncompressed:
    "unat (header_length (mBuffer m)) = length (drop 6 (mBuffer m)) \<and>
     drop 6 (mBuffer m) = payload \<and> ucast (header_type (mBuffer m)) = mtype"
    unfolding buf
    by (simp add: header_length_set_header [OF mb28] header_type_set_header [OF assms(3)]
          length_set_header mb)
  have compressed:
    "unat (header_length (mBufferCompressed m)) = length (drop 6 (mBufferCompressed m)) \<and>
     ucast (header_type (mBufferCompressed m)) = mtype \<and>
     header_compressed (mBufferCompressed m) \<and>
     header_algorithm (mBufferCompressed m) = ucast (LZ4 p)"
    if ne: "mBufferCompressed m \<noteq> []"
  proof -
    from assms(1) ne
    have kept: "0 < 1 - real (unat ?cs) / real (unat ?mb)"
      and cbuf: "mBufferCompressed m =
                   set_header ?cs mtype True (LZ4 p) @ take (unat ?cs) (compress p payload)"
      and cmp: "compressible p ?mb mtype compression_enabled"
      by (auto simp add: Message_ctor_def Let_def split: if_splits)
    from cmp have "70 < ?mb" by (simp add: compressible_def)
    then have pos: "0 < unat ?mb" by (simp add: word_less_nat_alt)
    with kept have lt: "unat ?cs < unat ?mb" by (simp only: ratio_positive)
    then have cs28: "unat ?cs < 2 ^ 28" using mb28 by simp
    have "unat ?cs \<le> length (compress p payload)"
      by (simp add: unat_of_nat)
    then have len: "length (take (unat ?cs) (compress p payload)) = unat ?cs" by simp
    show ?thesis
      unfolding cbuf
      by (simp add: header_length_set_header [OF cs28] header_type_set_header [OF assms(3)]
            header_flags_set_header [OF cs28] length_set_header len del: length_take)
  qed
  from uncompressed compressed show ?thesis by blast
qed

theorem Message_header_layout_witness:
  "Message_ctor protocol0 (replicate 71 7) 2 True =
     Inr \<lparr>mBuffer = set_header 71 2 False 1 @ replicate 71 7,
          mBufferCompressed = set_header 10 2 True 1 @ replicate 10 7\<rparr> \<and>
   length (replicate 71 (7 :: uint8_t)) < 2 ^ 28 \<and> unat (2 :: 32 word) < 2 ^ 16 \<and>
   set_header 10 2 True 1 @ replicate 10 (7 :: uint8_t) \<noteq> [] \<and>
   unat (header_length (set_header 10 2 True 1 @ replicate 10 7)) = 10 \<and>
   header_compressed (set_header 10 2 True 1 @ replicate 10 7) \<and>
   header_algorithm (set_header 10 2 True 1 @ replicate 10 7) = 1"
proof -
  have run: "Message_ctor protocol0 (replicate 71 7) 2 True =
     Inr \<lparr>mBuffer = set_header 71 2 False 1 @ replicate 71 7,
          mBufferCompressed = set_header 10 2 True 1 @ replicate 10 7\<rparr>"
    by (simp add: Message_ctor_def protocol0_def compressible_def assert_fails_def Let_def)
  have l1: "length (replicate 71 (7 :: uint8_t)) < 2 ^ 28" by simp
  have l2: "unat (2 :: 32 word) < 2 ^ 16" by simp
  have ne: "set_header 10 2 True 1 @ replicate 10 (7 :: uint8_t) \<noteq> []"
    by (simp add: set_header_def Let_def)
  from Message_header_layout [OF run l1 l2] run l1 l2 ne show ?thesis
    by (simp add: protocol0_def length_set_header)
qed

text \<open>
  C9 as stated fails for a payload of \<open>2^28\<close> bytes: bits 27..0 of the header
  are zero, and bit 28, a bit of the algorithm selector, is set by the length.
  It fails for the type code 65538 as well: bytes 4-5 hold 2.
\<close>

theorem Message_header_layout_counterexample:
  "Message_ctor protocol0 (replicate 268435456 0) 2 False =
     Inr \<lparr>mBuffer = set_header 268435456 2 False 1 @ replicate 268435456 0,
          mBufferCompressed = []\<rparr> \<and>
   set_header 268435456 2 False 1 = [16, 0, 0, 0, 0, 2] \<and>
   unat (header_length (set_header 268435456 2 False 1 @ replicate 268435456 0)) = 0 \<and>
   length (drop 6 (set_header 268435456 2 False 1 @ replicate 268435456 (0 :: uint8_t)))
     = 268435456 \<and>
   Message_ctor protocol0 (replicate 71 7) 65538 False =
     Inr \<lparr>mBuffer = set_header 71 65538 False 1 @ replicate 71 7,
          mBufferCompressed = []\<rparr> \<and>
   set_header 71 65538 False 1 = [0, 0, 0, 71, 0, 2] \<and>
   header_type (set_header 71 65538 False 1 @ replicate 71 7) = 2"
proof -
  have run: "Message_ctor protocol0 (replicate 268435456 0) 2 False =
     Inr \<lparr>mBuffer = set_header 268435456 2 False 1 @ replicate 268435456 0,
          mBufferCompressed = []\<rparr>"
    by (simp add: Message_ctor_def protocol0_def compressible_def assert_fails_def Let_def)
  have hdr: "set_header 268435456 2 False 1 = [16, 0, 0, 0, 0, 2]"
    by (simp add: set_header_def Let_def)
  have len: "header_length (set_header 268435456 2 False 1 @ replicate 268435456 0) = 0"
    unfolding hdr by (simp add: header_length_def be32_def)
  have run2: "Message_ctor protocol0 (replicate 71 7) 65538 False =
     Inr \<lparr>mBuffer = set_header 71 65538 False 1 @ replicate 71 7,
          mBufferCompressed = []\<rparr>"
    by (simp add: Message_ctor_def protocol0_def compressible_def assert_fails_def Let_def)
  have hdr2: "set_header 71 65538 False 1 = [0, 0, 0, 71, 0, 2]"
    by (simp add: set_header_def Let_def)
  have ty: "header_type (set_header 71 65538 False 1 @ replicate 71 7) = 2"
    unfolding hdr2 by (simp add: header_type_def be16_def)
  from run hdr len run2 hdr2 ty show ?thesis by (simp add: length_set_header)
qed

section \<open>Facts about the cache and the index\<close>

lemma ledger0_simps:
  "info (ledger0 h p t ps) = \<lparr>seq = 5, hash = h, parentHash = p, closeTime = t\<rparr>"
  "isImmutable (ledger0 h p t ps)"
  "stateMapHash (ledger0 h p t ps) = 7"
  "txMap (ledger0 h p t ps) = ps"
  "txRead (ledger0 h p t ps) k = Some (meta0 (ucast h))"
  by (simp_all add: ledger0_def)

lemma env0_simps:
  "\<not> NDEBUG env0" "loadByHash env0 h = None" "loadByIndex env0 i = None"
  "key (heap env0 p) = word_of_nat (p div 2)" "slice_data (heap env0 p) = [word_of_nat p]"
  by (simp_all add: env0_def)

lemma history0_simps:
  "ledgerCache history0 = Map.empty" "mLedgersByIndex history0 = Map.empty"
  "consensusValidated history0 = Map.empty" "mismatch_counter history0 = 0"
  "journal history0 = []"
  by (simp_all add: history0_def)

text \<open>
  C7, as amended. A mutable ledger always ends the call in \<open>LogicError\<close>, with
  nothing cached or indexed. The non-zero requirement is an \<open>assert\<close> on the
  hash of the state map: without \<open>NDEBUG\<close> an immutable ledger whose state map
  hashes to zero ends the call too. In every other case the call returns,
  the ledger is cached under \<open>info().hash\<close>, whatever that hash is, and
  indexed when \<open>validated\<close> is set.
\<close>

theorem insert_requirements:
  "(\<not> isImmutable l \<longrightarrow>
      LedgerHistory_insert env l v s = (Inl (LogicError ''mutable Ledger in insert''), s)) \<and>
   (isImmutable l \<and> \<not> NDEBUG env \<and> stateMapHash l = 0 \<longrightarrow>
      LedgerHistory_insert env l v s =
        (Inl (AssertionFailed ''ledger->stateMap().getHash().isNonZero()''), s)) \<and>
   (isImmutable l \<and> (NDEBUG env \<or> stateMapHash l \<noteq> 0) \<longrightarrow>
      fst (LedgerHistory_insert env l v s) = Inr (ledgerCache s (hash (info l)) \<noteq> None) \<and>
      ledgerCache (snd (LedgerHistory_insert env l v s)) =
        (ledgerCache s)(hash (info l) \<mapsto> l) \<and>
      mLedgersByIndex (snd (LedgerHistory_insert env l v s)) =
        (if v then (mLedgersByIndex s)(seq (info l) \<mapsto> hash (info l))
         else mLedgersByIndex s))"
  by (simp add: LedgerHistory_insert_def assert_fails_def insert_or_assign_def Let_def)

theorem insert_requirements_witness:
  "\<not> isImmutable ((ledger0 1 2 3 [])\<lparr>isImmutable := False\<rparr>) \<and>
   LedgerHistory_insert env0 ((ledger0 1 2 3 [])\<lparr>isImmutable := False\<rparr>) True history0 =
     (Inl (LogicError ''mutable Ledger in insert''), history0) \<and>
   isImmutable ((ledger0 1 2 3 [])\<lparr>stateMapHash := 0\<rparr>) \<and> \<not> NDEBUG env0 \<and>
   LedgerHistory_insert env0 ((ledger0 1 2 3 [])\<lparr>stateMapHash := 0\<rparr>) True history0 =
     (Inl (AssertionFailed ''ledger->stateMap().getHash().isNonZero()''), history0) \<and>
   isImmutable (ledger0 1 2 3 []) \<and> stateMapHash (ledger0 1 2 3 []) \<noteq> 0 \<and>
   fst (LedgerHistory_insert env0 (ledger0 1 2 3 []) True history0) = Inr False \<and>
   ledgerCache (snd (LedgerHistory_insert env0 (ledger0 1 2 3 []) True history0)) 1
     = Some (ledger0 1 2 3 []) \<and>
   mLedgersByIndex (snd (LedgerHistory_insert env0 (ledger0 1 2 3 []) True history0)) 5
     = Some 1"
  using insert_requirements [of "(ledger0 1 2 3 [])\<lparr>isImmutable := False\<rparr>" env0 True history0]
    insert_requirements [of "(ledger0 1 2 3 [])\<lparr>stateMapHash := 0\<rparr>" env0 True history0]
    insert_requirements [of "ledger0 1 2 3 []" env0 True history0]
  by (simp add: ledger0_simps env0_simps history0_simps)

text \<open>
  C7 as stated fails: an immutable ledger whose own hash is zero is cached
  under the key zero and indexed, and the call returns, in a build with
  assertions as well. With \<open>NDEBUG\<close> the same holds for a ledger whose state
  map hashes to zero too.
\<close>

theorem insert_requirements_counterexample:
  "hash (info (ledger0 0 2 3 [])) = 0 \<and> \<not> NDEBUG env0 \<and>
   fst (LedgerHistory_insert env0 (ledger0 0 2 3 []) True history0) = Inr False \<and>
   ledgerCache (snd (LedgerHistory_insert env0 (ledger0 0 2 3 []) True history0)) 0
     = Some (ledger0 0 2 3 []) \<and>
   mLedgersByIndex (snd (LedgerHistory_insert env0 (ledger0 0 2 3 []) True history0)) 5
     = Some 0 \<and>
   hash (info ((ledger0 0 2 3 [])\<lparr>stateMapHash := 0\<rparr>)) = 0 \<and>
   stateMapHash ((ledger0 0 2 3 [])\<lparr>stateMapHash := 0\<rparr>) = 0 \<and>
   NDEBUG (env0\<lparr>NDEBUG := True\<rparr>) \<and>
   fst (LedgerHistory_insert (env0\<lparr>NDEBUG := True\<rparr>)
          ((ledger0 0 2 3 [])\<lparr>stateMapHash := 0\<rparr>) True history0) = Inr False \<and>
   ledgerCache (snd (LedgerHistory_insert (env0\<lparr>NDEBUG := True\<rparr>)
          ((ledger0 0 2 3 [])\<lparr>stateMapHash := 0\<rparr>) True history0)) 0
     = Some ((ledger0 0 2 3 [])\<lparr>stateMapHash := 0\<rparr>) \<and>
   mLedgersByIndex (snd (LedgerHistory_insert (env0\<lparr>NDEBUG := True\<rparr>)
          ((ledger0 0 2 3 [])\<lparr>stateMapHash := 0\<rparr>) True history0)) 5
     = Some 0"
  by (simp add: LedgerHistory_insert_def assert_fails_def insert_or_assign_def Let_def
        ledger0_simps env0_simps history0_simps)

text \<open>
  C10, as amended. With \<open>NDEBUG\<close>, no index entry for the requested sequence, a
  loader that answers with a ledger of another sequence, and a cache that
  holds no other object under that ledger's hash: the call returns nothing,
  the ledger is in the cache under its hash, the index binds the ledger's
  own sequence to its hash, and the requested sequence is still unbound.
  Without \<open>NDEBUG\<close> the same call stops at the assertion on the sequence and
  changes nothing.
\<close>

theorem getLedgerBySeq_wrong_sequence:
  assumes "mLedgersByIndex s index = None"
    and "loadByIndex env index = Some l"
    and "seq (info l) \<noteq> index"
    and "ledgerCache s (hash (info l)) = None \<or> ledgerCache s (hash (info l)) = Some l"
  shows "(NDEBUG env \<longrightarrow>
            fst (getLedgerBySeq env index s) = Inr None \<and>
            ledgerCache (snd (getLedgerBySeq env index s)) = (ledgerCache s)(hash (info l) \<mapsto> l) \<and>
            mLedgersByIndex (snd (getLedgerBySeq env index s)) =
              (mLedgersByIndex s)(seq (info l) \<mapsto> hash (info l)) \<and>
            mLedgersByIndex (snd (getLedgerBySeq env index s)) index = None) \<and>
         (\<not> NDEBUG env \<longrightarrow>
            getLedgerBySeq env index s =
              (Inl (AssertionFailed ''ret->info().seq == index''), s))"
  using assms
  by (auto simp add: getLedgerBySeq_def assert_fails_def retrieve_or_insert_def Let_def
        fun_upd_idem)

theorem getLedgerBySeq_wrong_sequence_witness:
  "mLedgersByIndex history0 6 = None \<and>
   loadByIndex (env0\<lparr>NDEBUG := True, loadByIndex := (\<lambda>i. Some (ledger0 1 2 3 []))\<rparr>) 6
     = Some (ledger0 1 2 3 []) \<and>
   seq (info (ledger0 1 2 3 [])) \<noteq> 6 \<and>
   ledgerCache history0 (hash (info (ledger0 1 2 3 []))) = None \<and>
   fst (getLedgerBySeq (env0\<lparr>NDEBUG := True, loadByIndex := (\<lambda>i. Some (ledger0 1 2 3 []))\<rparr>)
          6 history0) = Inr None \<and>
   ledgerCache (snd (getLedgerBySeq
          (env0\<lparr>NDEBUG := True, loadByIndex := (\<lambda>i. Some (ledger0 1 2 3 []))\<rparr>) 6 history0)) 1
     = Some (ledger0 1 2 3 []) \<and>
   mLedgersByIndex (snd (getLedgerBySeq
          (env0\<lparr>NDEBUG := True, loadByIndex := (\<lambda>i. Some (ledger0 1 2 3 []))\<rparr>) 6 history0)) 5
     = Some 1"
proof -
  let ?env = "env0\<lparr>NDEBUG := True, loadByIndex := (\<lambda>i. Some (ledger0 1 2 3 []))\<rparr>"
  have h1: "mLedgersByIndex history0 6 = None" by (simp add: history0_simps)
  have h2: "loadByIndex ?env 6 = Some (ledger0 1 2 3 [])" by simp
  have h3: "seq (info (ledger0 1 2 3 [])) \<noteq> 6" by (simp add: ledger0_simps)
  have h4: "ledgerCache history0 (hash (info (ledger0 1 2 3 []))) = None \<or>
            ledgerCache history0 (hash (info (ledger0 1 2 3 []))) = Some (ledger0 1 2 3 [])"
    by (simp add: history0_simps)
  from getLedgerBySeq_wrong_sequence [OF h1 h2 h3 h4] h1 h2 h3 show ?thesis
    by (simp add: ledger0_simps history0_simps)
qed

text \<open>
  C10 as stated fails in a build with assertions: the call does not return
  and neither the cache nor the index changes.
\<close>

theorem getLedgerBySeq_wrong_sequence_counterexample:
  "mLedgersByIndex history0 6 = None \<and>
   loadByIndex (env0\<lparr>loadByIndex := (\<lambda>i. Some (ledger0 1 2 3 []))\<rparr>) 6
     = Some (ledger0 1 2 3 []) \<and>
   seq (info (ledger0 1 2 3 [])) \<noteq> 6 \<and>
   getLedgerBySeq (env0\<lparr>loadByIndex := (\<lambda>i. Some (ledger0 1 2 3 []))\<rparr>) 6 history0 =
     (Inl (AssertionFailed ''ret->info().seq == index''), history0)"
  by (simp add: getLedgerBySeq_def assert_fails_def ledger0_simps env0_simps history0_simps)

section \<open>Facts about the classification of a metadata difference\<close>

lemma getMeta_Some:
  "txRead l tx = Some obj \<Longrightarrow> getMeta l tx = Some (TxMeta_ctor tx (seq (info l)) obj)"
  by (simp add: getMeta_def)

text \<open>
  C5. With metadata on both sides the classifier returns. From the result
  code, the applied index and the node list of the two metadata objects it
  forms three booleans. If all are false it writes the one line "No apparent
  mismatches detected!". Otherwise it writes three lines, of which exactly
  one is a headline, and the headline names the fields that differ, no more
  and no fewer. A difference in the result code alone reads "Different
  result!".
\<close>

theorem log_metadata_difference_classification:
  assumes "txRead bl tx = Some bo" and "txRead vl tx = Some vo"
  shows "\<exists>lines.
           log_metadata_difference env bl vl tx j = (Inr (), j @ lines) \<and>
           (let r = (sfTransactionResult vo \<noteq> sfTransactionResult bo);
                i = (sfTransactionIndex vo \<noteq> sfTransactionIndex bo);
                n = (sfAffectedNodes vo \<noteq> sfAffectedNodes bo)
            in (if \<not> r \<and> \<not> i \<and> \<not> n
                then lines = [(kError, [Str ''MISMATCH on TX '', U256 tx,
                                        Str '': No apparent mismatches detected!''])]
                else length lines = 3 \<and>
                     filter is_tx_headline lines =
                       [(kDebug, [Str ''MISMATCH on TX '', U256 tx,
                                  Str ('': Different '' @ english_list (differing_fields r i n)
                                         @ ''!'')])]) \<and>
               (r \<and> \<not> i \<and> \<not> n \<longrightarrow>
                  hd lines = (kDebug, [Str ''MISMATCH on TX '', U256 tx,
                                       Str '': Different result!''])))"
proof -
  let ?r = "sfTransactionResult vo \<noteq> sfTransactionResult bo"
  let ?i = "sfTransactionIndex vo \<noteq> sfTransactionIndex bo"
  let ?n = "sfAffectedNodes vo \<noteq> sfAffectedNodes bo"
  have vm: "getMeta vl tx = Some (TxMeta_ctor tx (seq (info vl)) vo)"
    by (rule getMeta_Some) (rule assms(2))
  have bm: "getMeta bl tx = Some (TxMeta_ctor tx (seq (info bl)) bo)"
    by (rule getMeta_Some) (rule assms(1))
  have fields:
    "mResult (TxMeta_ctor tx (seq (info vl)) vo) \<noteq> mResult (TxMeta_ctor tx (seq (info bl)) bo)
       \<longleftrightarrow> ?r"
    "mIndex (TxMeta_ctor tx (seq (info vl)) vo) \<noteq> mIndex (TxMeta_ctor tx (seq (info bl)) bo)
       \<longleftrightarrow> ?i"
    "mNodes (TxMeta_ctor tx (seq (info vl)) vo) \<noteq> mNodes (TxMeta_ctor tx (seq (info bl)) bo)
       \<longleftrightarrow> ?n"
    by (simp_all add: TxMeta_ctor_def word_uint_eq_iff)
  show ?thesis
  proof (cases ?r; cases ?i; cases ?n)
    assume c: "?r" "?i" "?n"
    then show ?thesis
      using fields
      by (simp add: log_metadata_difference_def vm bm assert_fails_def Let_def
            differing_fields_def)
  next
    assume c: "?r" "?i" "\<not> ?n"
    then show ?thesis
      using fields
      by (simp add: log_metadata_difference_def vm bm assert_fails_def Let_def
            differing_fields_def)
  next
    assume c: "?r" "\<not> ?i" "?n"
    then show ?thesis
      using fields
      by (simp add: log_metadata_difference_def vm bm assert_fails_def Let_def
            differing_fields_def)
  next
    assume c: "?r" "\<not> ?i" "\<not> ?n"
    then show ?thesis
      using fields
      by (simp add: log_metadata_difference_def vm bm assert_fails_def Let_def
            differing_fields_def)
  next
    assume c: "\<not> ?r" "?i" "?n"
    then show ?thesis
      using fields
      by (simp add: log_metadata_difference_def vm bm assert_fails_def Let_def
            differing_fields_def)
  next
    assume c: "\<not> ?r" "?i" "\<not> ?n"
    then show ?thesis
      using fields
      by (simp add: log_metadata_difference_def vm bm assert_fails_def Let_def
            differing_fields_def)
  next
    assume c: "\<not> ?r" "\<not> ?i" "?n"
    then show ?thesis
      using fields
      by (simp add: log_metadata_difference_def vm bm assert_fails_def Let_def
            differing_fields_def)
  next
    assume c: "\<not> ?r" "\<not> ?i" "\<not> ?n"
    then show ?thesis
      using fields
      by (simp add: log_metadata_difference_def vm bm assert_fails_def Let_def
            differing_fields_def)
  qed
qed

theorem log_metadata_difference_classification_witness:
  "txRead (ledger0 1 10 3 [0]) 4 = Some (meta0 1) \<and>
   txRead (ledger0 2 10 3 [1]) 4 = Some (meta0 2) \<and>
   log_metadata_difference env0 (ledger0 1 10 3 [0]) (ledger0 2 10 3 [1]) 4 [] =
     (Inr (), [(kDebug, [Str ''MISMATCH on TX '', U256 4, Str '': Different result!'']),
               (kDebug, [Str '' Built:'', Str '' Result: '', IntV 1]),
               (kDebug, [Str '' Valid:'', Str '' Result: '', IntV 2])]) \<and>
   filter is_tx_headline
     (snd (log_metadata_difference env0 (ledger0 1 10 3 [0]) (ledger0 2 10 3 [1]) 4 [])) =
     [(kDebug, [Str ''MISMATCH on TX '', U256 4,
                Str ('': Different '' @ english_list (differing_fields True False False)
                       @ ''!'')])]"
proof -
  have h1: "txRead (ledger0 1 10 3 [0]) 4 = Some (meta0 1)"
    by (simp add: ledger0_simps)
  have h2: "txRead (ledger0 2 10 3 [1]) 4 = Some (meta0 2)"
    by (simp add: ledger0_simps)
  have run: "log_metadata_difference env0 (ledger0 1 10 3 [0]) (ledger0 2 10 3 [1]) 4 [] =
     (Inr (), [(kDebug, [Str ''MISMATCH on TX '', U256 4, Str '': Different result!'']),
               (kDebug, [Str '' Built:'', Str '' Result: '', IntV 1]),
               (kDebug, [Str '' Valid:'', Str '' Result: '', IntV 2])])"
    by (simp add: log_metadata_difference_def getMeta_def TxMeta_ctor_def meta0_def
          assert_fails_def ledger0_simps env0_simps Let_def)
  from log_metadata_difference_classification [OF h1 h2, of env0 "[]"] h1 h2 run
  show ?thesis
    by (simp add: meta0_def differing_fields_def)
qed

section \<open>Facts about the analyzer\<close>

lemma getLedgerByHash_frame:
  assumes "getLedgerByHash env h s = (r, s')"
  shows "mismatch_counter s' = mismatch_counter s"
    and "consensusValidated s' = consensusValidated s"
    and "mLedgersByIndex s' = mLedgersByIndex s"
    and "journal s' = journal s"
  using assms
  by (auto simp add: getLedgerByHash_def fetch_def retrieve_or_insert_def Let_def
        split: option.splits if_splits)

text \<open>Every logging function only appends to the journal it is given.\<close>

lemma log_one_prepend: "log_one l k m (j @ j') = j @ log_one l k m j'"
  by (simp add: log_one_def split: option.splits)

lemma log_metadata_difference_prepend:
  "log_metadata_difference env bl vl k (j @ j') =
     (fst (log_metadata_difference env bl vl k j'),
      j @ snd (log_metadata_difference env bl vl k j'))"
  by (simp add: log_metadata_difference_def Let_def split: option.splits)

lemma merge_induct [case_names both left right none]:
  assumes both: "\<And>b bs v vs. P bs (v # vs) \<Longrightarrow> P (b # bs) vs \<Longrightarrow> P bs vs \<Longrightarrow> P (b # bs) (v # vs)"
    and left: "\<And>b bs. P bs [] \<Longrightarrow> P (b # bs) []"
    and right: "\<And>v vs. P [] vs \<Longrightarrow> P [] (v # vs)"
    and none: "P [] []"
  shows "P bs vs"
proof (induction bs arbitrary: vs)
  case Nil
  show ?case by (induction vs) (auto intro: none right)
next
  case (Cons b bs)
  note outer = Cons.IH
  show ?case
  proof (induction vs)
    case Nil
    show ?case by (rule left) (rule outer)
  next
    case (Cons v vs)
    show ?case
    proof (rule both)
      show "P bs (v # vs)" by (rule outer)
      show "P (b # bs) vs" by (rule Cons.IH)
      show "P bs vs" by (rule outer)
    qed
  qed
qed

lemma log_differences_prepend:
  "log_differences env bl vl bs vs (j @ j') =
     (fst (log_differences env bl vl bs vs j'), j @ snd (log_differences env bl vl bs vs j'))"
proof (induction bs vs arbitrary: j' rule: merge_induct)
  case (both b bs v vs)
  let ?kb = "key (heap env b)" and ?kv = "key (heap env v)"
  consider (lt) "?kb < ?kv" | (gt) "?kv < ?kb" | (eq) "?kb = ?kv"
    using less_linear by blast
  then show ?case
  proof cases
    case lt
    then show ?thesis by (simp add: log_one_prepend both.IH)
  next
    case gt
    then have "\<not> ?kb < ?kv" by simp
    with gt show ?thesis by (simp add: log_one_prepend both.IH)
  next
    case eq
    obtain r j1 where m: "log_metadata_difference env bl vl ?kv j' = (r, j1)"
      by fastforce
    then have m': "log_metadata_difference env bl vl ?kv (j @ j') = (r, j @ j1)"
      by (subst log_metadata_difference_prepend) simp
    from eq m m' show ?thesis
      by (cases r) (simp_all add: both.IH)
  qed
next
  case (left b bs)
  then show ?case by (simp add: log_one_prepend)
next
  case (right v vs)
  then show ?case by (simp add: log_one_prepend)
next
  case none
  show ?case by simp
qed

lemma log_differences_from_empty:
  "log_differences env bl vl bs vs j =
     (fst (log_differences env bl vl bs vs []), j @ snd (log_differences env bl vl bs vs []))"
  using log_differences_prepend [of env bl vl bs vs j "[]"] by simp

lemma resolves_frame:
  assumes "resolves env bh vh s bl vl s2"
  shows "mismatch_counter s2 = mismatch_counter s + 1"
    and "consensusValidated s2 = consensusValidated s"
    and "mLedgersByIndex s2 = mLedgersByIndex s"
    and "journal s2 = journal s"
proof -
  from assms obtain s1 where
    g1: "getLedgerByHash env bh (s\<lparr>mismatch_counter := mismatch_counter s + 1\<rparr>)
           = (Inr (Some bl), s1)"
    and g2: "getLedgerByHash env vh s1 = (Inr (Some vl), s2)"
    by (auto simp add: resolves_def)
  from getLedgerByHash_frame [OF g1] getLedgerByHash_frame [OF g2]
  show "mismatch_counter s2 = mismatch_counter s + 1"
    and "consensusValidated s2 = consensusValidated s"
    and "mLedgersByIndex s2 = mLedgersByIndex s"
    and "journal s2 = journal s"
    by simp_all
qed

text \<open>What \<open>handleMismatch\<close> does once both ledgers are at hand.\<close>

lemma handleMismatch_resolved:
  assumes "resolves env bh vh s bl vl s2"
  shows "handleMismatch env bh vh bch vch cj s =
     (if parentHash (info bl) \<noteq> parentHash (info vl)
      then (Inr (), s2\<lparr>journal := journal s2 @
                    [mismatch_header bl vl cj, (kError, [Str ''MISMATCH on prior ledger''])]\<rparr>)
      else if closeTime (info bl) \<noteq> closeTime (info vl)
      then (Inr (), s2\<lparr>journal := journal s2 @
                    [mismatch_header bl vl cj, (kError, [Str ''MISMATCH on close time''])]\<rparr>)
      else (fst (log_differences env bl vl (leaves env (txMap bl)) (leaves env (txMap vl)) []),
            s2\<lparr>journal := journal s2 @ [mismatch_header bl vl cj]
                   @ consensus_set_lines bch vch
                   @ [summary_line env bl vl] @ ledger_dumps bl vl
                   @ snd (log_differences env bl vl (leaves env (txMap bl))
                            (leaves env (txMap vl)) [])\<rparr>))"
proof -
  from assms obtain s1 where
    g1: "getLedgerByHash env bh (s\<lparr>mismatch_counter := mismatch_counter s + 1\<rparr>)
           = (Inr (Some bl), s1)"
    and g2: "getLedgerByHash env vh s1 = (Inr (Some vl), s2)"
    and a: "\<not> assert_fails env (bh \<noteq> vh)" "\<not> assert_fails env (seq (info bl) = seq (info vl))"
    by (auto simp add: resolves_def assert_fails_def)
  show ?thesis
  proof (cases "parentHash (info bl) \<noteq> parentHash (info vl)
               \<or> closeTime (info bl) \<noteq> closeTime (info vl)")
    case True
    then show ?thesis
      using g1 g2 a
      by (auto simp add: handleMismatch_def Let_def JLOG_def mismatch_header_def)
  next
    case False
    let ?ld = "log_differences env bl vl (leaves env (txMap bl)) (leaves env (txMap vl))"
    obtain r0 j0 where e: "?ld [] = (r0, j0)" by fastforce
    have ld: "?ld j = (r0, j @ j0)" for j
      using log_differences_from_empty [of env bl vl _ _ j] e by simp
    show ?thesis
      using False g1 g2 a
      by (cases bch; cases vch)
         (simp_all add: handleMismatch_def Let_def JLOG_def ld e mismatch_header_def
            consensus_set_lines_def summary_line_def ledger_dumps_def summary_same_def
            summary_counts_def)
  qed
qed

lemma history_with_simps:
  "ledgerCache (history_with a b) = [hash (info a) \<mapsto> a, hash (info b) \<mapsto> b]"
  "mLedgersByIndex (history_with a b) = Map.empty"
  "consensusValidated (history_with a b) = Map.empty"
  "mismatch_counter (history_with a b) = 0"
  "journal (history_with a b) = []"
  by (simp_all add: history_with_def history0_def)

lemma resolves_history_with:
  assumes "h \<noteq> h'"
  shows "resolves env0 h h' (history_with (ledger0 h p t ps) (ledger0 h' p' t' ps'))
           (ledger0 h p t ps) (ledger0 h' p' t' ps')
           ((history_with (ledger0 h p t ps) (ledger0 h' p' t' ps'))\<lparr>mismatch_counter := 1\<rparr>)"
  using assms
  by (simp add: resolves_def getLedgerByHash_def fetch_def assert_fails_def
        history_with_simps ledger0_simps env0_simps)

text \<open>
  C3. In an invocation where both hashes resolve to ledgers: if the parent
  hashes differ the analyzer writes, after the opening debug line, the one
  line "MISMATCH on prior ledger" and returns; if they agree and the close
  times differ it writes the one line "MISMATCH on close time" and returns.
  In both cases the journal holds nothing else new, so neither a later check
  nor the transaction-level stage has run.
\<close>

theorem handleMismatch_early_classification:
  assumes "resolves env bh vh s bl vl s2"
  shows "(parentHash (info bl) \<noteq> parentHash (info vl) \<longrightarrow>
            handleMismatch env bh vh bch vch cj s =
              (Inr (), s2\<lparr>journal := journal s @
                 [mismatch_header bl vl cj, (kError, [Str ''MISMATCH on prior ledger''])]\<rparr>)) \<and>
         (parentHash (info bl) = parentHash (info vl) \<and>
          closeTime (info bl) \<noteq> closeTime (info vl) \<longrightarrow>
            handleMismatch env bh vh bch vch cj s =
              (Inr (), s2\<lparr>journal := journal s @
                 [mismatch_header bl vl cj, (kError, [Str ''MISMATCH on close time''])]\<rparr>))"
  using handleMismatch_resolved [OF assms, of bch vch cj] resolves_frame(4) [OF assms]
  by simp

theorem handleMismatch_early_classification_witness:
  "resolves env0 1 2 (history_with (ledger0 1 10 3 [0]) (ledger0 2 11 3 [2]))
     (ledger0 1 10 3 [0]) (ledger0 2 11 3 [2])
     ((history_with (ledger0 1 10 3 [0]) (ledger0 2 11 3 [2]))\<lparr>mismatch_counter := 1\<rparr>) \<and>
   parentHash (info (ledger0 1 10 3 [0])) \<noteq> parentHash (info (ledger0 2 11 3 [2])) \<and>
   handleMismatch env0 1 2 None None ''c''
       (history_with (ledger0 1 10 3 [0]) (ledger0 2 11 3 [2])) =
     (Inr (), (history_with (ledger0 1 10 3 [0]) (ledger0 2 11 3 [2]))
        \<lparr>mismatch_counter := 1,
          journal := [mismatch_header (ledger0 1 10 3 [0]) (ledger0 2 11 3 [2]) ''c'',
                      (kError, [Str ''MISMATCH on prior ledger''])]\<rparr>) \<and>
   resolves env0 1 2 (history_with (ledger0 1 10 3 [0]) (ledger0 2 10 4 [2]))
     (ledger0 1 10 3 [0]) (ledger0 2 10 4 [2])
     ((history_with (ledger0 1 10 3 [0]) (ledger0 2 10 4 [2]))\<lparr>mismatch_counter := 1\<rparr>) \<and>
   closeTime (info (ledger0 1 10 3 [0])) \<noteq> closeTime (info (ledger0 2 10 4 [2])) \<and>
   handleMismatch env0 1 2 None None ''c''
       (history_with (ledger0 1 10 3 [0]) (ledger0 2 10 4 [2])) =
     (Inr (), (history_with (ledger0 1 10 3 [0]) (ledger0 2 10 4 [2]))
        \<lparr>mismatch_counter := 1,
          journal := [mismatch_header (ledger0 1 10 3 [0]) (ledger0 2 10 4 [2]) ''c'',
                      (kError, [Str ''MISMATCH on close time''])]\<rparr>)"
proof -
  have ne: "(1 :: uint256) \<noteq> 2" by simp
  note r1 = resolves_history_with [OF ne, of 10 3 "[0]" 11 3 "[2]"]
  note r2 = resolves_history_with [OF ne, of 10 3 "[0]" 10 4 "[2]"]
  from handleMismatch_early_classification [OF r1, of None None "''c''"]
    handleMismatch_early_classification [OF r2, of None None "''c''"] r1 r2
  show ?thesis
    by (simp add: ledger0_simps history_with_simps)
qed

section \<open>Facts about the tracker\<close>

text \<open>
  The analyzer counts its invocation before anything else, and touches neither
  the tracker nor the index.
\<close>

lemma handleMismatch_frame:
  assumes "handleMismatch env bh vh bch vch cj s = (r, s')"
  shows "consensusValidated s' = consensusValidated s \<and>
         mLedgersByIndex s' = mLedgersByIndex s \<and>
         mismatch_counter s' =
           (if assert_fails env (bh \<noteq> vh) then mismatch_counter s else mismatch_counter s + 1)"
proof (cases "assert_fails env (bh \<noteq> vh)")
  case True
  with assms show ?thesis by (simp add: handleMismatch_def)
next
  case False
  let ?s0 = "s\<lparr>mismatch_counter := mismatch_counter s + 1\<rparr>"
  obtain r1 s1 where g1: "getLedgerByHash env bh ?s0 = (r1, s1)" by fastforce
  obtain r2 s2 where g2: "getLedgerByHash env vh s1 = (r2, s2)" by fastforce
  note f1 = getLedgerByHash_frame [OF g1]
  note f2 = getLedgerByHash_frame [OF g2]
  show ?thesis
  proof (cases r1)
    case (Inl e)
    with assms False g1 f1 show ?thesis by (auto simp add: handleMismatch_def Let_def)
  next
    case x: (Inr x)
    show ?thesis
    proof (cases r2)
      case (Inl e)
      with assms False g1 g2 x f1 f2 show ?thesis
        by (auto simp add: handleMismatch_def Let_def)
    next
      case y: (Inr y)
      show ?thesis
      proof (cases "\<exists>bl vl. x = Some bl \<and> y = Some vl
                     \<and> \<not> assert_fails env (seq (info bl) = seq (info vl))")
        case True
        then obtain bl vl where xy: "x = Some bl" "y = Some vl"
          and a: "\<not> assert_fails env (seq (info bl) = seq (info vl))" by blast
        have res: "resolves env bh vh s bl vl s2"
          using g1 g2 x y xy a False by (auto simp add: resolves_def assert_fails_def)
        from handleMismatch_resolved [OF res, of bch vch cj] assms resolves_frame [OF res]
        show ?thesis using False by (auto split: if_splits)
      next
        case False
        with assms \<open>\<not> assert_fails env (bh \<noteq> vh)\<close> g1 g2 x y f1 f2 show ?thesis
          by (cases x; cases y) (auto simp add: handleMismatch_def Let_def JLOG_def)
      qed
    qed
  qed
qed

lemma handleMismatch_counter:
  assumes "bh \<noteq> vh"
  shows "mismatch_counter (snd (handleMismatch env bh vh bch vch cj s)) = mismatch_counter s + 1"
  using handleMismatch_frame [of env bh vh bch vch cj s] assms
  by (cases "handleMismatch env bh vh bch vch cj s") (simp add: assert_fails_def)

text \<open>
  C1. From a state with no entry for the sequence, and with hashes that pass
  the assertion on a zero hash: the first call, \<open>builtLedger\<close>, returns and
  changes nothing but the entry. If the hashes differ, the second call,
  \<open>validatedLedger\<close>, is one application of \<open>handleMismatch\<close> with the built
  hash first and the validated hash second, followed by the store into the
  entry, and the counter ends one higher. If the hashes are equal, the second
  call is the store alone, and the counter is unchanged.
\<close>

theorem built_then_validated:
  assumes "consensusValidated s (seq (info l1)) = None"
    and "seq (info l2) = seq (info l1)"
    and "NDEBUG env \<or> (hash (info l1) \<noteq> 0 \<and> hash (info l2) \<noteq> 0)"
  shows
    "let index = seq (info l1); H1 = hash (info l1); H2 = hash (info l2);
         e1 = make_cv_entry\<lparr>built := Some H1, builtConsensusHash := Some ch,
                             consensus := Some cj\<rparr>;
         s1 = s\<lparr>consensusValidated := (consensusValidated s)(index \<mapsto> e1)\<rparr>;
         store = (\<lambda>t. t\<lparr>consensusValidated := (consensusValidated t)(index \<mapsto>
                            e1\<lparr>validated := Some H2, validatedConsensusHash := vch\<rparr>)\<rparr>)
     in builtLedger env l1 ch cj s = (Inr (), s1) \<and>
        (H1 \<noteq> H2 \<longrightarrow>
           validatedLedger env l2 vch s1 =
             (case handleMismatch env H1 H2 (Some ch) vch cj
                     (JLOG (kError, [Str ''Mismatch on validated ledger (seq '',
                                     Num (unat index), Str ''): built is'', U256 H1,
                                     Str '', validated is:'', U256 H2]) s1) of
                (Inl e, s2) \<Rightarrow> (Inl e, s2)
              | (Inr u, s2) \<Rightarrow> (Inr (), store s2)) \<and>
           mismatch_counter (snd (validatedLedger env l2 vch s1)) = mismatch_counter s + 1) \<and>
        (H1 = H2 \<longrightarrow>
           validatedLedger env l2 vch s1 = (Inr (), store s1) \<and>
           mismatch_counter (snd (validatedLedger env l2 vch s1)) = mismatch_counter s \<and>
           journal (snd (validatedLedger env l2 vch s1)) = journal s \<and>
           ledgerCache (snd (validatedLedger env l2 vch s1)) = ledgerCache s)"
proof -
  let ?index = "seq (info l1)" and ?H1 = "hash (info l1)" and ?H2 = "hash (info l2)"
  let ?e1 = "make_cv_entry\<lparr>built := Some ?H1, builtConsensusHash := Some ch,
                             consensus := Some cj\<rparr>"
  let ?s1 = "s\<lparr>consensusValidated := (consensusValidated s)(?index \<mapsto> ?e1)\<rparr>"
  let ?line = "(kError, [Str ''Mismatch on validated ledger (seq '',
                         Num (unat ?index), Str ''): built is'', U256 ?H1,
                         Str '', validated is:'', U256 ?H2])"
  have a1: "\<not> assert_fails env (?H1 \<noteq> 0)" and a2: "\<not> assert_fails env (?H2 \<noteq> 0)"
    using assms(3) by (auto simp add: assert_fails_def)
  have b: "builtLedger env l1 ch cj s = (Inr (), ?s1)"
    using assms(1) a1
    by (simp add: builtLedger_def retrieve_or_insert_def make_cv_entry_def Let_def)
  have v_ne: "validatedLedger env l2 vch ?s1 =
             (case handleMismatch env ?H1 ?H2 (Some ch) vch cj (JLOG ?line ?s1) of
                (Inl e, s2) \<Rightarrow> (Inl e, s2)
              | (Inr u, s2) \<Rightarrow>
                  (Inr (), s2\<lparr>consensusValidated := (consensusValidated s2)(?index \<mapsto>
                            ?e1\<lparr>validated := Some ?H2, validatedConsensusHash := vch\<rparr>)\<rparr>))"
    if ne: "?H1 \<noteq> ?H2"
  proof -
    obtain r s2 where h: "handleMismatch env ?H1 ?H2 (Some ch) vch cj (JLOG ?line ?s1) = (r, s2)"
      by fastforce
    show ?thesis
      using ne a2 assms(2) h
      by (cases r)
         (simp_all add: validatedLedger_def retrieve_or_insert_def make_cv_entry_def Let_def)
  qed
  have c_ne: "mismatch_counter (snd (validatedLedger env l2 vch ?s1)) = mismatch_counter s + 1"
    if ne: "?H1 \<noteq> ?H2"
  proof -
    obtain r s2 where h: "handleMismatch env ?H1 ?H2 (Some ch) vch cj (JLOG ?line ?s1) = (r, s2)"
      by fastforce
    from handleMismatch_counter [OF ne, of env "Some ch" vch cj "JLOG ?line ?s1"] h
    have "mismatch_counter s2 = mismatch_counter s + 1" by (simp add: JLOG_def)
    with v_ne [OF ne] h show ?thesis by (cases r) simp_all
  qed
  have v_eq: "validatedLedger env l2 vch ?s1 =
                (Inr (), ?s1\<lparr>consensusValidated := (consensusValidated ?s1)(?index \<mapsto>
                            ?e1\<lparr>validated := Some ?H2, validatedConsensusHash := vch\<rparr>)\<rparr>)"
    if "?H1 = ?H2"
    using that a2 assms(2)
    by (simp add: validatedLedger_def retrieve_or_insert_def make_cv_entry_def Let_def)
  show ?thesis
    unfolding Let_def
    using b v_ne c_ne v_eq by simp
qed

theorem built_then_validated_witness:
  "consensusValidated (history_with (ledger0 1 10 3 []) (ledger0 2 10 3 []))
     (seq (info (ledger0 1 10 3 []))) = None \<and>
   seq (info (ledger0 2 10 3 [])) = seq (info (ledger0 1 10 3 [])) \<and>
   hash (info (ledger0 1 10 3 [])) \<noteq> 0 \<and> hash (info (ledger0 2 10 3 [])) \<noteq> 0 \<and>
   hash (info (ledger0 1 10 3 [])) \<noteq> hash (info (ledger0 2 10 3 [])) \<and>
   fst (builtLedger env0 (ledger0 1 10 3 []) 7 ''c''
          (history_with (ledger0 1 10 3 []) (ledger0 2 10 3 []))) = Inr () \<and>
   mismatch_counter (snd (validatedLedger env0 (ledger0 2 10 3 []) (Some 8)
      (snd (builtLedger env0 (ledger0 1 10 3 []) 7 ''c''
              (history_with (ledger0 1 10 3 []) (ledger0 2 10 3 [])))))) = 1 \<and>
   mismatch_counter (snd (validatedLedger env0 (ledger0 1 10 3 []) (Some 8)
      (snd (builtLedger env0 (ledger0 1 10 3 []) 7 ''c''
              (history_with (ledger0 1 10 3 []) (ledger0 2 10 3 [])))))) = 0"
proof -
  let ?s = "history_with (ledger0 1 10 3 []) (ledger0 2 10 3 [])"
  have h1: "consensusValidated ?s (seq (info (ledger0 1 10 3 []))) = None"
    by (simp add: history_with_simps)
  have h2: "seq (info (ledger0 2 10 3 [])) = seq (info (ledger0 1 10 3 []))"
    by (simp add: ledger0_simps)
  have h2': "seq (info (ledger0 1 10 3 [])) = seq (info (ledger0 1 10 3 []))"
    by simp
  have h3: "NDEBUG env0 \<or>
            (hash (info (ledger0 1 10 3 [])) \<noteq> 0 \<and> hash (info (ledger0 2 10 3 [])) \<noteq> 0)"
    by (simp add: ledger0_simps)
  have h3': "NDEBUG env0 \<or>
            (hash (info (ledger0 1 10 3 [])) \<noteq> 0 \<and> hash (info (ledger0 1 10 3 [])) \<noteq> 0)"
    by (simp add: ledger0_simps)
  note t1 = built_then_validated [where ch = 7 and cj = "''c''" and vch = "Some 8",
      OF h1 h2 h3, unfolded Let_def]
  note t2 = built_then_validated [where ch = 7 and cj = "''c''" and vch = "Some 8",
      OF h1 h2' h3', unfolded Let_def]
  note b = t1 [THEN conjunct1]
  have ne: "hash (info (ledger0 1 10 3 [])) \<noteq> hash (info (ledger0 2 10 3 []))"
    by (simp add: ledger0_simps)
  have c1: "mismatch_counter (snd (validatedLedger env0 (ledger0 2 10 3 []) (Some 8)
              (snd (builtLedger env0 (ledger0 1 10 3 []) 7 ''c'' ?s)))) = mismatch_counter ?s + 1"
    unfolding b snd_conv
    by (rule t1 [THEN conjunct2, THEN conjunct1, THEN mp, OF ne, THEN conjunct2])
  have c2: "mismatch_counter (snd (validatedLedger env0 (ledger0 1 10 3 []) (Some 8)
              (snd (builtLedger env0 (ledger0 1 10 3 []) 7 ''c'' ?s)))) = mismatch_counter ?s"
    unfolding b snd_conv
    by (rule t2 [THEN conjunct2, THEN conjunct2, THEN mp, OF refl, THEN conjunct2,
                 THEN conjunct1])
  have b': "fst (builtLedger env0 (ledger0 1 10 3 []) 7 ''c'' ?s) = Inr ()"
    unfolding b by simp
  from h1 h2 b' c1 c2 show ?thesis
    by (simp add: ledger0_simps history_with_simps)
qed

text \<open>One call of either entry point: what it adds to the counter, what it stores.\<close>

lemma builtLedger_step:
  assumes "builtLedger env l ch cj s = (r, s')"
  shows "mismatch_counter s' = mismatch_counter s +
           (if \<not> assert_fails env (hash (info l) \<noteq> 0) \<and>
               built (entry_of s (seq (info l))) = None \<and>
               (\<exists>vh. validated (entry_of s (seq (info l))) = Some vh \<and> vh \<noteq> hash (info l))
            then 1 else 0)"
    and "r = Inr () \<Longrightarrow>
           consensusValidated s' = (consensusValidated s)(seq (info l) \<mapsto>
             (entry_of s (seq (info l)))\<lparr>built := Some (hash (info l)),
                builtConsensusHash := Some ch, consensus := Some cj\<rparr>)"
proof -
  let ?i = "seq (info l)" and ?h = "hash (info l)"
  let ?e = "entry_of s ?i"
  let ?c = "(consensusValidated s)(?i \<mapsto> ?e)"
  have roi: "retrieve_or_insert (consensusValidated s) ?i make_cv_entry =
               (?e, if consensusValidated s ?i = None then ?c else consensusValidated s)"
    by (simp add: retrieve_or_insert_def entry_of_def split: option.splits)
  have c_idem: "(if consensusValidated s ?i = None then ?c else consensusValidated s) = ?c"
    by (auto simp add: entry_of_def fun_upd_idem split: option.splits)
  let ?s1 = "s\<lparr>consensusValidated := ?c\<rparr>"
  show "mismatch_counter s' = mismatch_counter s +
           (if \<not> assert_fails env (?h \<noteq> 0) \<and> built ?e = None \<and>
               (\<exists>vh. validated ?e = Some vh \<and> vh \<noteq> ?h)
            then 1 else 0)"
    and "r = Inr () \<Longrightarrow>
           consensusValidated s' = (consensusValidated s)(?i \<mapsto>
             ?e\<lparr>built := Some ?h, builtConsensusHash := Some ch, consensus := Some cj\<rparr>)"
  proof -
    consider (abort) "assert_fails env (?h \<noteq> 0)"
      | (fire) vh where "\<not> assert_fails env (?h \<noteq> 0)" "validated ?e = Some vh"
          "built ?e = None" "vh \<noteq> ?h"
      | (quiet) "\<not> assert_fails env (?h \<noteq> 0)"
          "\<not> (built ?e = None \<and> (\<exists>vh. validated ?e = Some vh \<and> vh \<noteq> ?h))"
      by blast
    then have "mismatch_counter s' = mismatch_counter s +
           (if \<not> assert_fails env (?h \<noteq> 0) \<and> built ?e = None \<and>
               (\<exists>vh. validated ?e = Some vh \<and> vh \<noteq> ?h)
            then 1 else 0) \<and>
          (r = Inr () \<longrightarrow>
           consensusValidated s' = (consensusValidated s)(?i \<mapsto>
             ?e\<lparr>built := Some ?h, builtConsensusHash := Some ch, consensus := Some cj\<rparr>))"
    proof cases
      case abort
      with assms show ?thesis by (auto simp add: builtLedger_def Let_def)
    next
      case (fire vh)
      let ?line = "(kError, [Str ''MISMATCH: seq='', Num (unat ?i), Str '' validated:'', U256 vh,
                             Str '' then:'', U256 ?h])"
      obtain r2 s2 where h: "handleMismatch env ?h vh (Some ch) (validatedConsensusHash ?e) cj
                               (JLOG ?line ?s1) = (r2, s2)" by fastforce
      from handleMismatch_frame [OF h] fire(4)
      have f: "consensusValidated s2 = ?c" "mismatch_counter s2 = mismatch_counter s + 1"
        by (simp_all add: JLOG_def assert_fails_def)
      from assms fire h f show ?thesis
        by (cases r2) (auto simp add: builtLedger_def Let_def roi c_idem)
    next
      case quiet
      with assms show ?thesis
        by (cases "validated ?e"; cases "built ?e")
           (auto simp add: builtLedger_def Let_def roi c_idem JLOG_def)
    qed
    then show "mismatch_counter s' = mismatch_counter s +
           (if \<not> assert_fails env (?h \<noteq> 0) \<and> built ?e = None \<and>
               (\<exists>vh. validated ?e = Some vh \<and> vh \<noteq> ?h)
            then 1 else 0)"
      and "r = Inr () \<Longrightarrow>
           consensusValidated s' = (consensusValidated s)(?i \<mapsto>
             ?e\<lparr>built := Some ?h, builtConsensusHash := Some ch, consensus := Some cj\<rparr>)"
      by blast+
  qed
qed

lemma validatedLedger_step:
  assumes "validatedLedger env l vch s = (r, s')"
  shows "mismatch_counter s' = mismatch_counter s +
           (if \<not> assert_fails env (hash (info l) \<noteq> 0) \<and>
               validated (entry_of s (seq (info l))) = None \<and>
               (\<exists>bh. built (entry_of s (seq (info l))) = Some bh \<and> bh \<noteq> hash (info l)) \<and>
               consensus (entry_of s (seq (info l))) \<noteq> None
            then 1 else 0)"
    and "r = Inr () \<Longrightarrow>
           consensusValidated s' = (consensusValidated s)(seq (info l) \<mapsto>
             (entry_of s (seq (info l)))\<lparr>validated := Some (hash (info l)),
                validatedConsensusHash := vch\<rparr>)"
proof -
  let ?i = "seq (info l)" and ?h = "hash (info l)"
  let ?e = "entry_of s ?i"
  let ?c = "(consensusValidated s)(?i \<mapsto> ?e)"
  have roi: "retrieve_or_insert (consensusValidated s) ?i make_cv_entry =
               (?e, if consensusValidated s ?i = None then ?c else consensusValidated s)"
    by (simp add: retrieve_or_insert_def entry_of_def split: option.splits)
  have c_idem: "(if consensusValidated s ?i = None then ?c else consensusValidated s) = ?c"
    by (auto simp add: entry_of_def fun_upd_idem split: option.splits)
  let ?s1 = "s\<lparr>consensusValidated := ?c\<rparr>"
  let ?fires = "\<not> assert_fails env (?h \<noteq> 0) \<and> validated ?e = None \<and>
                (\<exists>bh. built ?e = Some bh \<and> bh \<noteq> ?h) \<and> consensus ?e \<noteq> None"
  consider (abort) "assert_fails env (?h \<noteq> 0)"
    | (fire) bh cj0 where "\<not> assert_fails env (?h \<noteq> 0)" "built ?e = Some bh"
        "validated ?e = None" "bh \<noteq> ?h" "consensus ?e = Some cj0"
    | (throw) bh where "\<not> assert_fails env (?h \<noteq> 0)" "built ?e = Some bh"
        "validated ?e = None" "bh \<noteq> ?h" "consensus ?e = None"
    | (quiet) "\<not> assert_fails env (?h \<noteq> 0)"
        "\<not> (validated ?e = None \<and> (\<exists>bh. built ?e = Some bh \<and> bh \<noteq> ?h))"
    by (cases "consensus ?e") blast+
  then have "mismatch_counter s' = mismatch_counter s + (if ?fires then 1 else 0) \<and>
          (r = Inr () \<longrightarrow>
           consensusValidated s' = (consensusValidated s)(?i \<mapsto>
             ?e\<lparr>validated := Some ?h, validatedConsensusHash := vch\<rparr>))"
  proof cases
    case abort
    with assms show ?thesis by (auto simp add: validatedLedger_def Let_def)
  next
    case (fire bh cj0)
    let ?line = "(kError, [Str ''Mismatch on validated ledger (seq '', Num (unat ?i),
                           Str ''): built is'', U256 bh, Str '', validated is:'', U256 ?h])"
    obtain r2 s2 where h: "handleMismatch env bh ?h (builtConsensusHash ?e) vch cj0
                             (JLOG ?line ?s1) = (r2, s2)" by fastforce
    from handleMismatch_frame [OF h] fire(4)
    have f: "consensusValidated s2 = ?c" "mismatch_counter s2 = mismatch_counter s + 1"
      by (simp_all add: JLOG_def assert_fails_def)
    from assms fire h f show ?thesis
      by (cases r2) (auto simp add: validatedLedger_def Let_def roi c_idem)
  next
    case (throw bh)
    with assms show ?thesis
      by (auto simp add: validatedLedger_def Let_def roi c_idem JLOG_def)
  next
    case quiet
    with assms show ?thesis
      by (cases "validated ?e"; cases "built ?e")
         (auto simp add: validatedLedger_def Let_def roi c_idem)
  qed
  then show "mismatch_counter s' = mismatch_counter s + (if ?fires then 1 else 0)"
    and "r = Inr () \<Longrightarrow>
           consensusValidated s' = (consensusValidated s)(?i \<mapsto>
             ?e\<lparr>validated := Some ?h, validatedConsensusHash := vch\<rparr>)"
    by blast+
qed

lemma apply_event_counted:
  assumes "counted_once c0 i s"
    and "seq (info (event_ledger ev)) = i"
    and "apply_event env ev s = (r, s')"
  shows "mismatch_counter s' \<le> c0 + 1" and "r = Inr () \<Longrightarrow> counted_once c0 i s'"
proof -
  have "mismatch_counter s' \<le> c0 + 1 \<and> (r = Inr () \<longrightarrow> counted_once c0 i s')"
  proof (cases ev)
    case (Built l ch cj)
    with assms(3) have b: "builtLedger env l ch cj s = (r, s')" by simp
    from builtLedger_step [OF b] assms(1,2) Built show ?thesis
      by (auto simp add: counted_once_def entry_of_def split: if_splits)
  next
    case (Validated l vch)
    with assms(3) have v: "validatedLedger env l vch s = (r, s')" by simp
    from validatedLedger_step [OF v] assms(1,2) Validated show ?thesis
      by (auto simp add: counted_once_def entry_of_def split: if_splits)
  qed
  then show "mismatch_counter s' \<le> c0 + 1" and "r = Inr () \<Longrightarrow> counted_once c0 i s'"
    by blast+
qed

lemma run_events_counted:
  assumes "counted_once c0 i s"
    and "\<forall>ev \<in> set evs. seq (info (event_ledger ev)) = i"
  shows "mismatch_counter (snd (run_events env evs s)) \<le> c0 + 1"
  using assms
proof (induction evs arbitrary: s)
  case Nil
  then show ?case by (auto simp add: counted_once_def split: if_splits)
next
  case (Cons ev evs)
  obtain r s' where a: "apply_event env ev s = (r, s')" by fastforce
  from Cons.prems have i: "seq (info (event_ledger ev)) = i" by simp
  show ?case
  proof (cases r)
    case (Inl e)
    with a apply_event_counted(1) [OF Cons.prems(1) i a] show ?thesis by simp
  next
    case (Inr u)
    with apply_event_counted(2) [OF Cons.prems(1) i a] have "counted_once c0 i s'" by simp
    with Cons.IH [of s'] Cons.prems(2) a Inr show ?thesis by simp
  qed
qed

text \<open>Once both sides of the entry are known, no call for the sequence counts again.\<close>

lemma apply_event_resolved:
  assumes "built (entry_of s i) \<noteq> None" and "validated (entry_of s i) \<noteq> None"
    and "seq (info (event_ledger ev)) = i"
    and "apply_event env ev s = (r, s')"
  shows "mismatch_counter s' = mismatch_counter s"
    and "r = Inr () \<Longrightarrow> built (entry_of s' i) \<noteq> None \<and> validated (entry_of s' i) \<noteq> None"
proof -
  have "mismatch_counter s' = mismatch_counter s \<and>
        (r = Inr () \<longrightarrow> built (entry_of s' i) \<noteq> None \<and> validated (entry_of s' i) \<noteq> None)"
  proof (cases ev)
    case (Built l ch cj)
    with assms(4) have b: "builtLedger env l ch cj s = (r, s')" by simp
    from builtLedger_step [OF b] assms(1,2,3) Built show ?thesis
      by (auto simp add: entry_of_def)
  next
    case (Validated l vch)
    with assms(4) have v: "validatedLedger env l vch s = (r, s')" by simp
    from validatedLedger_step [OF v] assms(1,2,3) Validated show ?thesis
      by (auto simp add: entry_of_def)
  qed
  then show "mismatch_counter s' = mismatch_counter s"
    and "r = Inr () \<Longrightarrow> built (entry_of s' i) \<noteq> None \<and> validated (entry_of s' i) \<noteq> None"
    by blast+
qed

lemma run_events_resolved:
  assumes "built (entry_of s i) \<noteq> None" and "validated (entry_of s i) \<noteq> None"
    and "\<forall>ev \<in> set evs. seq (info (event_ledger ev)) = i"
  shows "mismatch_counter (snd (run_events env evs s)) = mismatch_counter s"
  using assms
proof (induction evs arbitrary: s)
  case Nil
  then show ?case by simp
next
  case (Cons ev evs)
  obtain r s' where a: "apply_event env ev s = (r, s')" by fastforce
  from Cons.prems have i: "seq (info (event_ledger ev)) = i" by simp
  note step = apply_event_resolved [OF Cons.prems(1,2) i a]
  show ?case
  proof (cases r)
    case (Inl e)
    with a step(1) show ?thesis by simp
  next
    case (Inr u)
    with step(2) have "built (entry_of s' i) \<noteq> None" "validated (entry_of s' i) \<noteq> None"
      by simp_all
    with Cons.IH [of s'] Cons.prems(3) a Inr step(1) show ?thesis by simp
  qed
qed

text \<open>
  C2, as amended. Over any sequence of calls for one ledger sequence, starting
  with no entry for it, the analyzer is invoked at most once (the counter is
  what the analyzer raises first, once per invocation). From a state in which
  both sides of the entry are known no call for the sequence invokes it,
  whatever the hashes are. It is invoked exactly at the call that brings the
  second side: a \<open>validatedLedger\<close> that finds only the built side, or a
  \<open>builtLedger\<close> that finds only the validated side, adds one to the counter
  when its hash differs from the stored one and nothing when it is equal.
\<close>

theorem mismatch_fires_at_most_once:
  assumes "\<forall>ev \<in> set evs. seq (info (event_ledger ev)) = i"
  shows "(consensusValidated s i = None \<longrightarrow>
            mismatch_counter (snd (run_events env evs s)) \<le> mismatch_counter s + 1) \<and>
         (\<forall>e. consensusValidated s i = Some e \<and> built e \<noteq> None \<and> validated e \<noteq> None \<longrightarrow>
            mismatch_counter (snd (run_events env evs s)) = mismatch_counter s) \<and>
         (\<forall>e a l vch.
            consensusValidated s i = Some e \<and> built e = Some a \<and> validated e = None \<and>
            consensus e \<noteq> None \<and> seq (info l) = i \<and> (NDEBUG env \<or> hash (info l) \<noteq> 0) \<longrightarrow>
            mismatch_counter (snd (validatedLedger env l vch s)) =
              mismatch_counter s + (if a \<noteq> hash (info l) then 1 else 0)) \<and>
         (\<forall>e a l ch cj.
            consensusValidated s i = Some e \<and> validated e = Some a \<and> built e = None \<and>
            seq (info l) = i \<and> (NDEBUG env \<or> hash (info l) \<noteq> 0) \<longrightarrow>
            mismatch_counter (snd (builtLedger env l ch cj s)) =
              mismatch_counter s + (if a \<noteq> hash (info l) then 1 else 0))"
proof (intro conjI allI impI)
  assume "consensusValidated s i = None"
  then have "counted_once (mismatch_counter s) i s"
    by (simp add: counted_once_def entry_of_def make_cv_entry_def)
  from run_events_counted [OF this assms]
  show "mismatch_counter (snd (run_events env evs s)) \<le> mismatch_counter s + 1" .
next
  fix e :: cv_entry
  assume "consensusValidated s i = Some e \<and> built e \<noteq> None \<and> validated e \<noteq> None"
  then have "built (entry_of s i) \<noteq> None" "validated (entry_of s i) \<noteq> None"
    by (simp_all add: entry_of_def)
  from run_events_resolved [OF this assms]
  show "mismatch_counter (snd (run_events env evs s)) = mismatch_counter s" .
next
  fix e :: cv_entry and a :: LedgerHash and l :: Ledger and vch :: "uint256 option"
  assume h: "consensusValidated s i = Some e \<and> built e = Some a \<and> validated e = None \<and>
             consensus e \<noteq> None \<and> seq (info l) = i \<and> (NDEBUG env \<or> hash (info l) \<noteq> 0)"
  obtain r s' where v: "validatedLedger env l vch s = (r, s')" by fastforce
  from validatedLedger_step(1) [OF v] h v
  show "mismatch_counter (snd (validatedLedger env l vch s)) =
          mismatch_counter s + (if a \<noteq> hash (info l) then 1 else 0)"
    by (auto simp add: entry_of_def assert_fails_def)
next
  fix e :: cv_entry and a :: LedgerHash and l :: Ledger and ch :: uint256 and cj :: JsonValue
  assume h: "consensusValidated s i = Some e \<and> validated e = Some a \<and> built e = None \<and>
             seq (info l) = i \<and> (NDEBUG env \<or> hash (info l) \<noteq> 0)"
  obtain r s' where b: "builtLedger env l ch cj s = (r, s')" by fastforce
  from builtLedger_step(1) [OF b] h b
  show "mismatch_counter (snd (builtLedger env l ch cj s)) =
          mismatch_counter s + (if a \<noteq> hash (info l) then 1 else 0)"
    by (auto simp add: entry_of_def assert_fails_def)
qed

theorem mismatch_fires_at_most_once_witness:
  "seq (info (ledger0 1 10 3 [])) = 5 \<and> seq (info (ledger0 2 10 3 [])) = 5 \<and>
   seq (info (ledger0 3 10 3 [])) = 5 \<and>
   consensusValidated history0 5 = None \<and>
   mismatch_counter (snd (run_events env0
      [Built (ledger0 1 10 3 []) 7 ''c'', Validated (ledger0 2 10 3 []) (Some 8),
       Built (ledger0 3 10 3 []) 9 ''d'', Validated (ledger0 1 10 3 []) None] history0))
     \<le> mismatch_counter history0 + 1 \<and>
   mismatch_counter (snd (run_events env0
      [Built (ledger0 1 10 3 []) 7 ''c'', Validated (ledger0 2 10 3 []) (Some 8),
       Built (ledger0 3 10 3 []) 9 ''d'', Validated (ledger0 1 10 3 []) None] history0)) = 1"
proof -
  let ?evs = "[Built (ledger0 1 10 3 []) 7 ''c'', Validated (ledger0 2 10 3 []) (Some 8),
               Built (ledger0 3 10 3 []) 9 ''d'', Validated (ledger0 1 10 3 []) None]"
  have h: "\<forall>ev \<in> set ?evs. seq (info (event_ledger ev)) = 5"
    by (simp add: ledger0_simps)
  have h0: "consensusValidated history0 5 = None" by (simp add: history0_simps)
  have run: "mismatch_counter (snd (run_events env0 ?evs history0)) = 1"
    by (simp add: builtLedger_def validatedLedger_def handleMismatch_def getLedgerByHash_def
          fetch_def retrieve_or_insert_def make_cv_entry_def JLOG_def
          assert_fails_def Let_def ledger0_simps env0_simps history0_simps)
  from mismatch_fires_at_most_once [OF h, of history0 env0, THEN conjunct1, THEN mp, OF h0]
    h0 run
  show ?thesis by (simp add: ledger0_simps)
qed

text \<open>
  C2 as stated fails: after a built ledger, an equal validated ledger and a
  rebuild with another hash, the entry holds a fully populated, unequal pair
  for which the analyzer was never invoked.
\<close>

theorem mismatch_fires_at_most_once_counterexample:
  "fst (run_events env0
      [Built (ledger0 1 10 3 []) 7 ''c'', Validated (ledger0 1 10 3 []) (Some 7),
       Built (ledger0 2 10 3 []) 9 ''d''] history0) = Inr () \<and>
   map_option built (consensusValidated (snd (run_events env0
      [Built (ledger0 1 10 3 []) 7 ''c'', Validated (ledger0 1 10 3 []) (Some 7),
       Built (ledger0 2 10 3 []) 9 ''d''] history0)) 5) = Some (Some 2) \<and>
   map_option validated (consensusValidated (snd (run_events env0
      [Built (ledger0 1 10 3 []) 7 ''c'', Validated (ledger0 1 10 3 []) (Some 7),
       Built (ledger0 2 10 3 []) 9 ''d''] history0)) 5) = Some (Some 1) \<and>
   mismatch_counter (snd (run_events env0
      [Built (ledger0 1 10 3 []) 7 ''c'', Validated (ledger0 1 10 3 []) (Some 7),
       Built (ledger0 2 10 3 []) 9 ''d''] history0)) = 0 \<and>
   journal (snd (run_events env0
      [Built (ledger0 1 10 3 []) 7 ''c'', Validated (ledger0 1 10 3 []) (Some 7),
       Built (ledger0 2 10 3 []) 9 ''d''] history0)) = []"
  by (simp add: builtLedger_def validatedLedger_def retrieve_or_insert_def make_cv_entry_def
        assert_fails_def Let_def ledger0_simps env0_simps history0_simps)

section \<open>Facts about the transaction-level stage\<close>

lemma tx_entry_Nil: "tx_entry env [] k = None"
  by (simp add: tx_entry_def)

lemma tx_entry_Cons:
  "tx_entry env (p # ps) k =
     (if key (heap env p) = k then Some (slice_data (heap env p)) else tx_entry env ps k)"
  by (simp add: tx_entry_def)

lemma tx_entry_None: "k \<notin> set (tx_keys env ps) \<Longrightarrow> tx_entry env ps k = None"
  by (induction ps) (auto simp add: tx_entry_Nil tx_entry_Cons tx_keys_def)

lemma tx_entry_Some: "k \<in> set (tx_keys env ps) \<Longrightarrow> tx_entry env ps k \<noteq> None"
  by (induction ps) (auto simp add: tx_entry_Nil tx_entry_Cons tx_keys_def)

lemma tx_keys_Cons: "tx_keys env (p # ps) = key (heap env p) # tx_keys env ps"
  by (simp add: tx_keys_def)

lemma for_each_cong:
  assumes "\<And>x. x \<in> set xs \<Longrightarrow> f x = g x"
  shows "for_each f xs s = for_each g xs s"
  using assms
proof (induction xs arbitrary: s)
  case Nil
  show ?case by simp
next
  case (Cons x xs)
  have "f x = g x" by (rule Cons.prems) simp
  moreover have "for_each f xs t = for_each g xs t" for t
    by (rule Cons.IH) (simp add: Cons.prems)
  ultimately show ?case by (simp split: prod.splits sum.splits)
qed

lemma expected_tx_log_cong:
  assumes "tx_entry env bs k = tx_entry env bs' k" and "tx_entry env vs k = tx_entry env vs' k"
  shows "expected_tx_log env bl vl bs vs k = expected_tx_log env bl vl bs' vs' k"
  using assms by (simp add: expected_tx_log_def fun_eq_iff)

text \<open>A strictly ascending list starts with its least element.\<close>

lemma strict_sorted_head:
  fixes k :: "'a :: linorder"
  assumes "sorted_wrt (<) ks" and "k \<in> set ks" and "\<forall>x \<in> set ks. k \<le> x"
  shows "\<exists>ks'. ks = k # ks' \<and> set ks' = set ks - {k} \<and> sorted_wrt (<) ks'"
proof (cases ks)
  case Nil
  with assms(2) show ?thesis by simp
next
  case (Cons a ks')
  with assms(1) have less: "\<forall>x \<in> set ks'. a < x" and s': "sorted_wrt (<) ks'" by simp_all
  have "k = a"
  proof (rule ccontr)
    assume "k \<noteq> a"
    with assms(2) Cons have "k \<in> set ks'" by simp
    with less have "a < k" by blast
    moreover from assms(3) Cons have "k \<le> a" by simp
    ultimately show False by simp
  qed
  moreover from less have "a \<notin> set ks'" by blast
  ultimately show ?thesis using Cons s' by auto
qed

text \<open>
  The loop is the merge-join: on two vectors strictly ascending by key it does,
  for every key of either in ascending order, what the specification asks
  for that key.
\<close>

lemma log_differences_merge_join:
  assumes "sorted_wrt (<) (tx_keys env bs)" and "sorted_wrt (<) (tx_keys env vs)"
    and "sorted_wrt (<) ks"
    and "set ks = set (tx_keys env bs) \<union> set (tx_keys env vs)"
  shows "log_differences env bl vl bs vs j = for_each (expected_tx_log env bl vl bs vs) ks j"
  using assms
proof (induction bs vs arbitrary: ks j rule: merge_induct)
  case (both b bs v vs)
  let ?kb = "key (heap env b)" and ?kv = "key (heap env v)"
  from both.prems(1) have b_less: "\<forall>x \<in> set (tx_keys env bs). ?kb < x"
    and sb: "sorted_wrt (<) (tx_keys env bs)" by (simp_all add: tx_keys_Cons)
  from both.prems(2) have v_less: "\<forall>x \<in> set (tx_keys env vs). ?kv < x"
    and sv: "sorted_wrt (<) (tx_keys env vs)" by (simp_all add: tx_keys_Cons)
  from both.prems(4)
  have ks_set: "set ks = insert ?kb (set (tx_keys env bs)) \<union> insert ?kv (set (tx_keys env vs))"
    by (simp add: tx_keys_Cons)
  consider (lt) "?kb < ?kv" | (gt) "?kv < ?kb" | (eq) "?kb = ?kv"
    using less_linear by blast
  then show ?case
  proof cases
    case lt
    have "\<forall>x \<in> set ks. ?kb \<le> x" using ks_set b_less v_less lt by fastforce
    moreover have "?kb \<in> set ks" using ks_set by simp
    ultimately obtain ks' where ks: "ks = ?kb # ks'" "set ks' = set ks - {?kb}"
      "sorted_wrt (<) ks'"
      using strict_sorted_head [OF both.prems(3)] by blast
    have notin: "?kb \<notin> set (tx_keys env bs)" "?kb \<notin> set (tx_keys env (v # vs))"
      using b_less v_less lt by (auto simp add: tx_keys_Cons)
    have set': "set ks' = set (tx_keys env bs) \<union> set (tx_keys env (v # vs))"
      using ks(2) ks_set notin by (auto simp add: tx_keys_Cons)
    have IH: "log_differences env bl vl bs (v # vs) j' =
              for_each (expected_tx_log env bl vl bs (v # vs)) ks' j'" for j'
      by (rule both.IH(1) [OF sb both.prems(2) ks(3) set'])
    have cong: "for_each (expected_tx_log env bl vl (b # bs) (v # vs)) ks' j' =
                for_each (expected_tx_log env bl vl bs (v # vs)) ks' j'" for j'
    proof (rule for_each_cong, rule expected_tx_log_cong)
      fix k assume "k \<in> set ks'"
      with ks(2) have "k \<noteq> ?kb" by simp
      then show "tx_entry env (b # bs) k = tx_entry env bs k" by (simp add: tx_entry_Cons)
    qed simp
    have here: "expected_tx_log env bl vl (b # bs) (v # vs) ?kb j =
                (Inr (), log_one bl ?kb ''valid'' j)"
      using tx_entry_None [OF notin(2)] by (simp add: expected_tx_log_def tx_entry_Cons)
    show ?thesis
      using lt by (simp add: ks(1) here cong IH)
  next
    case gt
    then have nlt: "\<not> ?kb < ?kv" by simp
    have "\<forall>x \<in> set ks. ?kv \<le> x" using ks_set b_less v_less gt by fastforce
    moreover have "?kv \<in> set ks" using ks_set by simp
    ultimately obtain ks' where ks: "ks = ?kv # ks'" "set ks' = set ks - {?kv}"
      "sorted_wrt (<) ks'"
      using strict_sorted_head [OF both.prems(3)] by blast
    have notin: "?kv \<notin> set (tx_keys env vs)" "?kv \<notin> set (tx_keys env (b # bs))"
      using b_less v_less gt by (auto simp add: tx_keys_Cons)
    have set': "set ks' = set (tx_keys env (b # bs)) \<union> set (tx_keys env vs)"
      using ks(2) ks_set notin by (auto simp add: tx_keys_Cons)
    have IH: "log_differences env bl vl (b # bs) vs j' =
              for_each (expected_tx_log env bl vl (b # bs) vs) ks' j'" for j'
      by (rule both.IH(2) [OF both.prems(1) sv ks(3) set'])
    have cong: "for_each (expected_tx_log env bl vl (b # bs) (v # vs)) ks' j' =
                for_each (expected_tx_log env bl vl (b # bs) vs) ks' j'" for j'
    proof (rule for_each_cong, rule expected_tx_log_cong)
      fix k assume "k \<in> set ks'"
      with ks(2) have "k \<noteq> ?kv" by simp
      then show "tx_entry env (v # vs) k = tx_entry env vs k" by (simp add: tx_entry_Cons)
    qed simp
    have here: "expected_tx_log env bl vl (b # bs) (v # vs) ?kv j =
                (Inr (), log_one vl ?kv ''built'' j)"
      using tx_entry_None [OF notin(2)] by (simp add: expected_tx_log_def tx_entry_Cons)
    show ?thesis
      using gt nlt by (simp add: ks(1) here cong IH)
  next
    case eq
    have "\<forall>x \<in> set ks. ?kv \<le> x" using ks_set b_less v_less eq by fastforce
    moreover have "?kv \<in> set ks" using ks_set by simp
    ultimately obtain ks' where ks: "ks = ?kv # ks'" "set ks' = set ks - {?kv}"
      "sorted_wrt (<) ks'"
      using strict_sorted_head [OF both.prems(3)] by blast
    have notin: "?kv \<notin> set (tx_keys env vs)" "?kv \<notin> set (tx_keys env bs)"
      using b_less v_less eq by auto
    have set': "set ks' = set (tx_keys env bs) \<union> set (tx_keys env vs)"
      using ks(2) ks_set notin eq by auto
    have IH: "log_differences env bl vl bs vs j' =
              for_each (expected_tx_log env bl vl bs vs) ks' j'" for j'
      by (rule both.IH(3) [OF sb sv ks(3) set'])
    have cong: "for_each (expected_tx_log env bl vl (b # bs) (v # vs)) ks' j' =
                for_each (expected_tx_log env bl vl bs vs) ks' j'" for j'
    proof (rule for_each_cong, rule expected_tx_log_cong)
      fix k assume "k \<in> set ks'"
      with ks(2) have k: "k \<noteq> ?kv" by simp
      with eq show "tx_entry env (b # bs) k = tx_entry env bs k" by (simp add: tx_entry_Cons)
      from k show "tx_entry env (v # vs) k = tx_entry env vs k" by (simp add: tx_entry_Cons)
    qed
    have here: "expected_tx_log env bl vl (b # bs) (v # vs) ?kv j =
                (if slice_data (heap env b) \<noteq> slice_data (heap env v)
                 then log_metadata_difference env bl vl ?kv j else (Inr (), j))"
      using eq by (simp add: expected_tx_log_def tx_entry_Cons)
    show ?thesis
      using eq by (simp add: ks(1) here cong IH split: prod.splits sum.splits)
  qed
next
  case (left b bs)
  let ?kb = "key (heap env b)"
  from left.prems(1) have b_less: "\<forall>x \<in> set (tx_keys env bs). ?kb < x"
    and sb: "sorted_wrt (<) (tx_keys env bs)" by (simp_all add: tx_keys_Cons)
  from left.prems(4) have ks_set: "set ks = insert ?kb (set (tx_keys env bs))"
    by (simp add: tx_keys_def)
  have "\<forall>x \<in> set ks. ?kb \<le> x" using ks_set b_less by fastforce
  moreover have "?kb \<in> set ks" using ks_set by simp
  ultimately obtain ks' where ks: "ks = ?kb # ks'" "set ks' = set ks - {?kb}"
    "sorted_wrt (<) ks'"
    using strict_sorted_head [OF left.prems(3)] by blast
  have notin: "?kb \<notin> set (tx_keys env bs)" using b_less by auto
  have set': "set ks' = set (tx_keys env bs) \<union> set (tx_keys env [])"
    using ks(2) ks_set notin by (auto simp add: tx_keys_def)
  have IH: "log_differences env bl vl bs [] j' =
            for_each (expected_tx_log env bl vl bs []) ks' j'" for j'
    by (rule left.IH [OF sb left.prems(2) ks(3) set'])
  have cong: "for_each (expected_tx_log env bl vl (b # bs) []) ks' j' =
              for_each (expected_tx_log env bl vl bs []) ks' j'" for j'
  proof (rule for_each_cong, rule expected_tx_log_cong)
    fix k assume "k \<in> set ks'"
    with ks(2) have "k \<noteq> ?kb" by simp
    then show "tx_entry env (b # bs) k = tx_entry env bs k" by (simp add: tx_entry_Cons)
  qed simp
  have here: "expected_tx_log env bl vl (b # bs) [] ?kb j = (Inr (), log_one bl ?kb ''valid'' j)"
    by (simp add: expected_tx_log_def tx_entry_Cons tx_entry_Nil)
  show ?case by (simp add: ks(1) here cong IH)
next
  case (right v vs)
  let ?kv = "key (heap env v)"
  from right.prems(2) have v_less: "\<forall>x \<in> set (tx_keys env vs). ?kv < x"
    and sv: "sorted_wrt (<) (tx_keys env vs)" by (simp_all add: tx_keys_Cons)
  from right.prems(4) have ks_set: "set ks = insert ?kv (set (tx_keys env vs))"
    by (simp add: tx_keys_def)
  have "\<forall>x \<in> set ks. ?kv \<le> x" using ks_set v_less by fastforce
  moreover have "?kv \<in> set ks" using ks_set by simp
  ultimately obtain ks' where ks: "ks = ?kv # ks'" "set ks' = set ks - {?kv}"
    "sorted_wrt (<) ks'"
    using strict_sorted_head [OF right.prems(3)] by blast
  have notin: "?kv \<notin> set (tx_keys env vs)" using v_less by auto
  have set': "set ks' = set (tx_keys env []) \<union> set (tx_keys env vs)"
    using ks(2) ks_set notin by (auto simp add: tx_keys_def)
  have IH: "log_differences env bl vl [] vs j' =
            for_each (expected_tx_log env bl vl [] vs) ks' j'" for j'
    by (rule right.IH [OF right.prems(1) sv ks(3) set'])
  have cong: "for_each (expected_tx_log env bl vl [] (v # vs)) ks' j' =
              for_each (expected_tx_log env bl vl [] vs) ks' j'" for j'
  proof (rule for_each_cong, rule expected_tx_log_cong)
    fix k assume "k \<in> set ks'"
    with ks(2) have "k \<noteq> ?kv" by simp
    then show "tx_entry env (v # vs) k = tx_entry env vs k" by (simp add: tx_entry_Cons)
  qed simp
  have here: "expected_tx_log env bl vl [] (v # vs) ?kv j = (Inr (), log_one vl ?kv ''built'' j)"
    by (simp add: expected_tx_log_def tx_entry_Cons tx_entry_Nil)
  show ?case by (simp add: ks(1) here cong IH)
next
  case none
  then have "ks = []" by (simp add: tx_keys_def)
  then show ?case by simp
qed

lemma distinct_keys_sort_key:
  "distinct (map f (sort_key f xs)) = distinct (map f xs)"
  by (induction xs) (simp_all add: distinct_insort_key)

lemma leaves_strictly_sorted:
  assumes "distinct (tx_keys env ps)"
  shows "sorted_wrt (<) (tx_keys env (leaves env ps))"
  using assms
  by (simp add: strict_sorted_iff tx_keys_def leaves_def distinct_keys_sort_key)

lemma leaves_keys: "set (tx_keys env (leaves env ps)) = set (tx_keys env ps)"
  by (simp add: tx_keys_def leaves_def)

lemma for_each_returns:
  assumes "\<And>x s. x \<in> set xs \<Longrightarrow> f x s = (Inr (), s @ g x)"
  shows "for_each f xs s = (Inr (), s @ concat (map g xs))"
  using assms by (induction xs arbitrary: s) simp_all

lemma log_metadata_difference_returns:
  assumes "txRead bl k \<noteq> None \<or> txRead vl k \<noteq> None"
  shows "fst (log_metadata_difference env bl vl k j) = Inr ()"
  using assms
  by (cases "txRead bl k"; cases "txRead vl k")
     (simp_all add: log_metadata_difference_def getMeta_def assert_fails_def Let_def)

lemma expected_tx_log_returns:
  assumes "k \<in> set (tx_keys env bs) \<inter> set (tx_keys env vs) \<longrightarrow>
             txRead bl k \<noteq> None \<or> txRead vl k \<noteq> None"
  shows "expected_tx_log env bl vl bs vs k j =
           (Inr (), j @ snd (expected_tx_log env bl vl bs vs k []))"
proof (cases "tx_entry env bs k")
  case None
  then show ?thesis
    using log_one_prepend [of vl k "''built''" j "[]"]
    by (cases "tx_entry env vs k") (simp_all add: expected_tx_log_def)
next
  case b: (Some x)
  show ?thesis
  proof (cases "tx_entry env vs k")
    case None
    with b show ?thesis
      using log_one_prepend [of bl k "''valid''" j "[]"]
      by (simp add: expected_tx_log_def)
  next
    case v: (Some y)
    from b v have "k \<in> set (tx_keys env bs) \<inter> set (tx_keys env vs)"
      using tx_entry_None [of k env bs] tx_entry_None [of k env vs] by auto
    with assms have "txRead bl k \<noteq> None \<or> txRead vl k \<noteq> None" by simp
    from log_metadata_difference_returns [OF this, of env]
      log_metadata_difference_prepend [of env bl vl k j "[]"]
    show ?thesis
      using b v by (simp add: expected_tx_log_def)
  qed
qed

text \<open>
  C4. When the analysis reaches the transaction-level stage (both ledgers at
  hand, equal parents, equal close times) and the keys of each transaction
  set are pairwise different, what \<open>handleMismatch\<close> does after the summary and
  the two dumps is the merge-join of the specification: for every key of
  either set, in ascending order, a key only in the built set is logged as
  missing from the valid ledger, a key only in the valid set as missing from
  the built ledger, a key in both with the same bytes is passed over and a
  key in both with different bytes goes to the metadata classification;
  nothing else is logged and the classification sees no one-sided key. A
  step that does not return ends the stage; when every key of both sets has
  metadata on some side, every step returns and the journal is the lines of
  all keys in order.
\<close>

theorem handleMismatch_merge_join:
  assumes "resolves env bh vh s bl vl s2"
    and "parentHash (info bl) = parentHash (info vl)"
    and "closeTime (info bl) = closeTime (info vl)"
    and "distinct (tx_keys env (txMap bl))"
    and "distinct (tx_keys env (txMap vl))"
  shows
    "let B = leaves env (txMap bl); V = leaves env (txMap vl);
         ks = sorted_list_of_set (set (tx_keys env B) \<union> set (tx_keys env V));
         j0 = journal s @ [mismatch_header bl vl cj] @ consensus_set_lines bch vch
                @ [summary_line env bl vl] @ ledger_dumps bl vl
     in handleMismatch env bh vh bch vch cj s =
          (case for_each (expected_tx_log env bl vl B V) ks j0 of
             (r, j') \<Rightarrow> (r, s2\<lparr>journal := j'\<rparr>)) \<and>
        ((\<forall>k \<in> set (tx_keys env B) \<inter> set (tx_keys env V).
             txRead bl k \<noteq> None \<or> txRead vl k \<noteq> None) \<longrightarrow>
         handleMismatch env bh vh bch vch cj s =
           (Inr (), s2\<lparr>journal := j0 @
              concat (map (\<lambda>k. snd (expected_tx_log env bl vl B V k [])) ks)\<rparr>))"
proof -
  let ?B = "leaves env (txMap bl)" and ?V = "leaves env (txMap vl)"
  let ?ks = "sorted_list_of_set (set (tx_keys env ?B) \<union> set (tx_keys env ?V))"
  let ?j0 = "journal s @ [mismatch_header bl vl cj] @ consensus_set_lines bch vch
               @ [summary_line env bl vl] @ ledger_dumps bl vl"
  let ?f = "expected_tx_log env bl vl ?B ?V"
  have ks: "sorted_wrt (<) ?ks" "set ?ks = set (tx_keys env ?B) \<union> set (tx_keys env ?V)"
    by (simp_all add: strict_sorted_iff)
  have loop: "log_differences env bl vl ?B ?V j = for_each ?f ?ks j" for j
    by (rule log_differences_merge_join
          [OF leaves_strictly_sorted [OF assms(4)] leaves_strictly_sorted [OF assms(5)] ks])
  have "log_differences env bl vl ?B ?V ?j0 =
          (fst (log_differences env bl vl ?B ?V []),
           ?j0 @ snd (log_differences env bl vl ?B ?V []))"
    by (rule log_differences_from_empty)
  with handleMismatch_resolved [OF assms(1), of bch vch cj] assms(2,3) resolves_frame(4) [OF assms(1)]
  have main: "handleMismatch env bh vh bch vch cj s =
          (case for_each ?f ?ks ?j0 of (r, j') \<Rightarrow> (r, s2\<lparr>journal := j'\<rparr>))"
    by (simp add: loop [symmetric])
  have full: "handleMismatch env bh vh bch vch cj s =
           (Inr (), s2\<lparr>journal := ?j0 @ concat (map (\<lambda>k. snd (?f k [])) ?ks)\<rparr>)"
    if readable: "\<forall>k \<in> set (tx_keys env ?B) \<inter> set (tx_keys env ?V).
                    txRead bl k \<noteq> None \<or> txRead vl k \<noteq> None"
  proof -
    have "for_each ?f ?ks ?j0 = (Inr (), ?j0 @ concat (map (\<lambda>k. snd (?f k [])) ?ks))"
    proof (rule for_each_returns)
      fix k j
      from readable
      have "k \<in> set (tx_keys env ?B) \<inter> set (tx_keys env ?V) \<longrightarrow>
              txRead bl k \<noteq> None \<or> txRead vl k \<noteq> None" by blast
      then show "?f k j = (Inr (), j @ snd (?f k []))"
        by (rule expected_tx_log_returns)
    qed
    with main show ?thesis by simp
  qed
  from main full show ?thesis unfolding Let_def by blast
qed

lemma tx_keys_env0: "tx_keys env0 ps = map (\<lambda>p. word_of_nat (p div 2)) ps"
  by (simp add: tx_keys_def env0_simps)

theorem handleMismatch_merge_join_witness:
  "resolves env0 1 2 (history_with (ledger0 1 10 3 [4, 2]) (ledger0 2 10 3 [2, 6]))
     (ledger0 1 10 3 [4, 2]) (ledger0 2 10 3 [2, 6])
     ((history_with (ledger0 1 10 3 [4, 2]) (ledger0 2 10 3 [2, 6]))\<lparr>mismatch_counter := 1\<rparr>) \<and>
   parentHash (info (ledger0 1 10 3 [4, 2])) = parentHash (info (ledger0 2 10 3 [2, 6])) \<and>
   closeTime (info (ledger0 1 10 3 [4, 2])) = closeTime (info (ledger0 2 10 3 [2, 6])) \<and>
   distinct (tx_keys env0 (txMap (ledger0 1 10 3 [4, 2]))) \<and>
   distinct (tx_keys env0 (txMap (ledger0 2 10 3 [2, 6]))) \<and>
   tx_keys env0 (txMap (ledger0 1 10 3 [4, 2])) = [2, 1] \<and>
   tx_keys env0 (txMap (ledger0 2 10 3 [2, 6])) = [1, 3] \<and>
   handleMismatch env0 1 2 None None ''c''
       (history_with (ledger0 1 10 3 [4, 2]) (ledger0 2 10 3 [2, 6])) =
     (Inr (), (history_with (ledger0 1 10 3 [4, 2]) (ledger0 2 10 3 [2, 6]))
        \<lparr>mismatch_counter := 1,
          journal :=
            [mismatch_header (ledger0 1 10 3 [4, 2]) (ledger0 2 10 3 [2, 6]) ''c'',
             summary_counts 2 2,
             (kError, [Str ''built\<newline>'', LedgerJson (info (ledger0 1 10 3 [4, 2]))]),
             (kError, [Str ''valid\<newline>'', LedgerJson (info (ledger0 2 10 3 [2, 6]))]),
             (kDebug, [Str ''MISMATCH on TX '', U256 2, Str '': '', Str ''valid'',
                       Str '' is missing this transaction:\<newline>'', ObjJson (meta0 1)]),
             (kDebug, [Str ''MISMATCH on TX '', U256 3, Str '': '', Str ''built'',
                       Str '' is missing this transaction:\<newline>'', ObjJson (meta0 2)])]\<rparr>)"
proof -
  let ?A = "ledger0 1 10 3 [4, 2]" and ?B = "ledger0 2 10 3 [2, 6]"
  have ne: "(1 :: uint256) \<noteq> 2" by simp
  note r = resolves_history_with [OF ne, of 10 3 "[4, 2]" 10 3 "[2, 6]"]
  have p: "parentHash (info ?A) = parentHash (info ?B)" by (simp add: ledger0_simps)
  have c: "closeTime (info ?A) = closeTime (info ?B)" by (simp add: ledger0_simps)
  have k1: "tx_keys env0 (txMap ?A) = [2, 1]" and k2: "tx_keys env0 (txMap ?B) = [1, 3]"
    by (simp_all add: ledger0_simps tx_keys_env0)
  have d1: "distinct (tx_keys env0 (txMap ?A))" and d2: "distinct (tx_keys env0 (txMap ?B))"
    unfolding k1 k2 by simp_all
  have readable: "\<forall>k \<in> set (tx_keys env0 (leaves env0 (txMap ?A)))
                        \<inter> set (tx_keys env0 (leaves env0 (txMap ?B))).
                    txRead ?A k \<noteq> None \<or> txRead ?B k \<noteq> None"
    by (simp add: ledger0_simps)
  have ks: "sorted_list_of_set (set (tx_keys env0 (leaves env0 (txMap ?A)))
                                 \<union> set (tx_keys env0 (leaves env0 (txMap ?B))))
            = [1, 2, 3 :: uint256]"
  proof -
    have "set (tx_keys env0 (leaves env0 (txMap ?A)))
            \<union> set (tx_keys env0 (leaves env0 (txMap ?B))) = set [1, 2, 3 :: uint256]"
      unfolding leaves_keys k1 k2 by auto
    moreover have "sorted [1, 2, 3 :: uint256]" "distinct [1, 2, 3 :: uint256]"
      by (simp_all add: word_le_nat_alt)
    ultimately show ?thesis
      by (simp only: sorted_list_of_set.idem_if_sorted_distinct)
  qed
  have lines: "concat (map (\<lambda>k. snd (expected_tx_log env0 ?A ?B
                   (leaves env0 (txMap ?A)) (leaves env0 (txMap ?B)) k [])) [1, 2, 3]) =
     [(kDebug, [Str ''MISMATCH on TX '', U256 2, Str '': '', Str ''valid'',
                Str '' is missing this transaction:\<newline>'', ObjJson (meta0 1)]),
      (kDebug, [Str ''MISMATCH on TX '', U256 3, Str '': '', Str ''built'',
                Str '' is missing this transaction:\<newline>'', ObjJson (meta0 2)])]"
    by (simp add: expected_tx_log_def tx_entry_def leaves_def env0_simps ledger0_simps
          log_one_def word_le_nat_alt word_less_nat_alt)
  have summary: "summary_line env0 ?A ?B = summary_counts 2 2"
    by (simp add: summary_line_def leaves_def env0_simps ledger0_simps word_le_nat_alt
          word_less_nat_alt numeral_2_eq_2 [symmetric])
  note t = handleMismatch_merge_join [OF r p c d1 d2, where bch = None and vch = None
      and cj = "''c''", unfolded Let_def, THEN conjunct2, THEN mp, OF readable]
  from t r p c d1 d2 k1 k2 show ?thesis
    unfolding ks lines summary
    by (simp add: history_with_simps consensus_set_lines_def ledger_dumps_def)
qed

section \<open>Facts about the summary line\<close>

lemma log_one_no_summary: "filter is_summary (log_one l k m j) = filter is_summary j"
  by (simp add: log_one_def split: option.splits)

lemma log_metadata_difference_no_summary:
  "filter is_summary (snd (log_metadata_difference env bl vl k j)) = filter is_summary j"
  by (simp add: log_metadata_difference_def Let_def split: option.splits)

lemma log_differences_no_summary:
  "filter is_summary (snd (log_differences env bl vl bs vs j)) = filter is_summary j"
proof (induction bs vs arbitrary: j rule: merge_induct)
  case (both b bs v vs)
  let ?kb = "key (heap env b)" and ?kv = "key (heap env v)"
  consider (lt) "?kb < ?kv" | (gt) "?kv < ?kb" | (eq) "?kb = ?kv"
    using less_linear by blast
  then show ?case
  proof cases
    case lt
    then show ?thesis by (simp add: both.IH log_one_no_summary)
  next
    case gt
    then have "\<not> ?kb < ?kv" by simp
    with gt show ?thesis by (simp add: both.IH log_one_no_summary)
  next
    case eq
    obtain r j1 where m: "log_metadata_difference env bl vl ?kv j = (r, j1)" by fastforce
    with log_metadata_difference_no_summary [of env bl vl ?kv j]
    have "filter is_summary j1 = filter is_summary j" by simp
    with eq m show ?thesis by (cases r) (simp_all add: both.IH)
  qed
next
  case (left b bs)
  then show ?case by (simp add: log_one_no_summary)
next
  case (right v vs)
  then show ?case by (simp add: log_one_no_summary)
next
  case none
  show ?case by simp
qed

lemma consensus_set_lines_no_summary: "filter is_summary (consensus_set_lines bch vch) = []"
  by (simp add: consensus_set_lines_def split: option.splits)

lemma is_summary_summary_line: "is_summary (summary_line env bl vl)"
  by (simp add: summary_line_def summary_same_def summary_counts_def)

text \<open>
  C6, as amended. When the analysis reaches the transaction-level stage it
  writes exactly one summary line. The line has the form "MISMATCH with same
  n transactions" when the two sorted vectors of leaves are the same vector
  of objects, and then both sets have \<open>n\<close> transactions with the same keys and
  the same bytes; it has the form "MISMATCH with b built and v valid
  transactions." when the vectors differ, which is the case whenever the
  keys or the bytes of some transaction differ, also when the key sets are
  the same.
\<close>

theorem handleMismatch_summary:
  assumes "resolves env bh vh s bl vl s2"
    and "parentHash (info bl) = parentHash (info vl)"
    and "closeTime (info bl) = closeTime (info vl)"
  shows "\<exists>new.
           journal (snd (handleMismatch env bh vh bch vch cj s)) = journal s @ new \<and>
           filter is_summary new = [summary_line env bl vl] \<and>
           (leaves env (txMap bl) = leaves env (txMap vl) \<longrightarrow>
              summary_line env bl vl = summary_same (length (txMap bl)) \<and>
              length (txMap bl) = length (txMap vl) \<and>
              map (heap env) (leaves env (txMap bl)) = map (heap env) (leaves env (txMap vl))) \<and>
           (leaves env (txMap bl) \<noteq> leaves env (txMap vl) \<longrightarrow>
              summary_line env bl vl =
                summary_counts (length (txMap bl)) (length (txMap vl))) \<and>
           (map (heap env) (leaves env (txMap bl)) \<noteq> map (heap env) (leaves env (txMap vl)) \<longrightarrow>
              summary_line env bl vl =
                summary_counts (length (txMap bl)) (length (txMap vl)))"
proof -
  let ?loop = "snd (log_differences env bl vl (leaves env (txMap bl)) (leaves env (txMap vl)) [])"
  let ?new = "[mismatch_header bl vl cj] @ consensus_set_lines bch vch
                @ [summary_line env bl vl] @ ledger_dumps bl vl @ ?loop"
  from handleMismatch_resolved [OF assms(1), of bch vch cj] assms(2,3)
    resolves_frame(4) [OF assms(1)]
  have j: "journal (snd (handleMismatch env bh vh bch vch cj s)) = journal s @ ?new"
    by simp
  have "filter is_summary ?loop = []"
    using log_differences_no_summary [of env bl vl _ _ "[]"] by simp
  then have one: "filter is_summary ?new = [summary_line env bl vl]"
    by (simp add: consensus_set_lines_no_summary is_summary_summary_line
          mismatch_header_def ledger_dumps_def)
  have len: "length (leaves env (txMap l)) = length (txMap l)" for l
    by (simp add: leaves_def)
  have same: "summary_line env bl vl = summary_same (length (txMap bl)) \<and>
              length (txMap bl) = length (txMap vl) \<and>
              map (heap env) (leaves env (txMap bl)) = map (heap env) (leaves env (txMap vl))"
    if "leaves env (txMap bl) = leaves env (txMap vl)"
    using that len [of bl] len [of vl] by (simp add: summary_line_def)
  have counts: "summary_line env bl vl = summary_counts (length (txMap bl)) (length (txMap vl))"
    if "leaves env (txMap bl) \<noteq> leaves env (txMap vl)"
    using that by (simp add: summary_line_def len)
  from j one same counts show ?thesis by blast
qed

theorem handleMismatch_summary_witness:
  "resolves env0 1 2 (history_with (ledger0 1 10 3 [4, 2]) (ledger0 2 10 3 [2, 4]))
     (ledger0 1 10 3 [4, 2]) (ledger0 2 10 3 [2, 4])
     ((history_with (ledger0 1 10 3 [4, 2]) (ledger0 2 10 3 [2, 4]))\<lparr>mismatch_counter := 1\<rparr>) \<and>
   parentHash (info (ledger0 1 10 3 [4, 2])) = parentHash (info (ledger0 2 10 3 [2, 4])) \<and>
   closeTime (info (ledger0 1 10 3 [4, 2])) = closeTime (info (ledger0 2 10 3 [2, 4])) \<and>
   leaves env0 (txMap (ledger0 1 10 3 [4, 2])) = leaves env0 (txMap (ledger0 2 10 3 [2, 4])) \<and>
   filter is_summary (journal (snd (handleMismatch env0 1 2 None None ''c''
       (history_with (ledger0 1 10 3 [4, 2]) (ledger0 2 10 3 [2, 4]))))) = [summary_same 2]"
proof -
  let ?A = "ledger0 1 10 3 [4, 2]" and ?B = "ledger0 2 10 3 [2, 4]"
  have ne: "(1 :: uint256) \<noteq> 2" by simp
  note r = resolves_history_with [OF ne, of 10 3 "[4, 2]" 10 3 "[2, 4]"]
  have p: "parentHash (info ?A) = parentHash (info ?B)" by (simp add: ledger0_simps)
  have c: "closeTime (info ?A) = closeTime (info ?B)" by (simp add: ledger0_simps)
  have l: "leaves env0 (txMap ?A) = leaves env0 (txMap ?B)"
    by (simp add: leaves_def env0_simps ledger0_simps word_le_nat_alt word_less_nat_alt)
  from handleMismatch_summary [OF r p c, of None None "''c''"]
  obtain new where n: "journal (snd (handleMismatch env0 1 2 None None ''c''
                         (history_with ?A ?B))) = journal (history_with ?A ?B) @ new"
    and f: "filter is_summary new = [summary_line env0 ?A ?B]"
    and s: "leaves env0 (txMap ?A) = leaves env0 (txMap ?B) \<longrightarrow>
              summary_line env0 ?A ?B = summary_same (length (txMap ?A)) \<and>
              length (txMap ?A) = length (txMap ?B) \<and>
              map (heap env0) (leaves env0 (txMap ?A)) = map (heap env0) (leaves env0 (txMap ?B))"
    by blast
  from s l have "summary_line env0 ?A ?B = summary_same 2"
    by (simp add: ledger0_simps numeral_2_eq_2 [symmetric])
  with n f r p c l show ?thesis by (simp add: history_with_simps)
qed

text \<open>
  C6 as stated fails: two ledgers with the same key set, one transaction each
  under key 1, and different bytes. The summary is the two-count line, the
  form for sets that are not the same.
\<close>

theorem handleMismatch_summary_counterexample:
  "set (tx_keys env0 (txMap (ledger0 1 10 3 [2]))) = set (tx_keys env0 (txMap (ledger0 2 10 3 [3]))) \<and>
   map (\<lambda>p. slice_data (heap env0 p)) (txMap (ledger0 1 10 3 [2])) = [[2]] \<and>
   map (\<lambda>p. slice_data (heap env0 p)) (txMap (ledger0 2 10 3 [3])) = [[3]] \<and>
   filter is_summary (journal (snd (handleMismatch env0 1 2 None None ''c''
       (history_with (ledger0 1 10 3 [2]) (ledger0 2 10 3 [3]))))) = [summary_counts 1 1] \<and>
   summary_counts 1 1 \<noteq> summary_same 1"
proof -
  let ?A = "ledger0 1 10 3 [2]" and ?B = "ledger0 2 10 3 [3]"
  have ne: "(1 :: uint256) \<noteq> 2" by simp
  note r = resolves_history_with [OF ne, of 10 3 "[2]" 10 3 "[3]"]
  have j: "journal (snd (handleMismatch env0 1 2 None None ''c'' (history_with ?A ?B))) =
     [mismatch_header ?A ?B ''c'', summary_counts 1 1,
      (kError, [Str ''built\<newline>'', LedgerJson (info ?A)]),
      (kError, [Str ''valid\<newline>'', LedgerJson (info ?B)]),
      (kDebug, [Str ''MISMATCH on TX '', U256 1, Str '': Different result!'']),
      (kDebug, [Str '' Built:'', Str '' Result: '', IntV 1]),
      (kDebug, [Str '' Valid:'', Str '' Result: '', IntV 2])]"
    unfolding handleMismatch_resolved [OF r]
    by (simp add: ledger0_simps history_with_simps leaves_def env0_simps
          log_metadata_difference_def getMeta_def TxMeta_ctor_def meta0_def assert_fails_def
          consensus_set_lines_def summary_line_def summary_counts_def ledger_dumps_def Let_def)
  show ?thesis
    unfolding j
    by (simp add: ledger0_simps tx_keys_env0 env0_simps mismatch_header_def summary_counts_def
          summary_same_def)
qed

end
